theory Spec2Isabelle
  imports Main "HOL-Library.Multiset" "HOL-Library.Sublist"
begin

section \<open>Data model of modiHuffman.py\<close>

text \<open>
  A bit-string is a Python \<^verbatim>\<open>str\<close> over the two characters \<^verbatim>\<open>'0'\<close> and
  \<^verbatim>\<open>'1'\<close>: every such string of the program is built from the literals
  \<^verbatim>\<open>"0"\<close> and \<^verbatim>\<open>"1"\<close>, from \<^verbatim>\<open>"{0:08b}".format\<close> or from \<^verbatim>\<open>bin\<close>.
  \<open>B0\<close> stands for the character \<^verbatim>\<open>'0'\<close>, \<open>B1\<close> for \<^verbatim>\<open>'1'\<close>.
\<close>

datatype bit = B0 | B1

type_synonym bits = "bit list"

text \<open>
  The exceptions of the Python run time that the functions below raise, and the four error
  kinds named by the specification, \<open>EmptyInputError\<close> to \<open>UnsupportedSymbolError\<close>, none
  of which any statement of modiHuffman.py creates. \<open>OutsideModel\<close> is not an exception:
  a function returns it for an input on which the behaviour of Python is not described
  here, and nothing is stated about the program on such an input.
\<close>

datatype pyerror =
    IndexError
  | KeyError
  | ValueError
  | UnicodeEncodeError
  | EmptyInputError
  | FormatError
  | CorruptStreamError
  | UnsupportedSymbolError
  | OutsideModel

section \<open>Binary numerals\<close>

definition bit_val :: "bit \<Rightarrow> nat" where
  "bit_val b = (case b of B0 \<Rightarrow> 0 | B1 \<Rightarrow> 1)"

definition bit_of :: "nat \<Rightarrow> bit" where
  "bit_of n = (if n = 0 then B0 else B1)"

text \<open>\<^verbatim>\<open>int(s, 2)\<close> on a bit-string: the empty string raises \<^verbatim>\<open>ValueError\<close>.\<close>

definition bits_val :: "bits \<Rightarrow> nat" where
  "bits_val s = foldl (\<lambda>a b. 2 * a + bit_val b) 0 s"

definition int_base2 :: "bits \<Rightarrow> pyerror + nat" where
  "int_base2 s = (if s = [] then Inl ValueError else Inr (bits_val s))"

text \<open>\<^verbatim>\<open>bin(n)[2:]\<close>, which is also \<^verbatim>\<open>"{0:b}".format(n)\<close>: most significant bit first.\<close>

function bin_digits :: "nat \<Rightarrow> bits" where
  "bin_digits n = (if n < 2 then [bit_of n] else bin_digits (n div 2) @ [bit_of (n mod 2)])"
  by pat_completeness auto
termination
  by (relation "measure id") auto

declare bin_digits.simps [simp del]

text \<open>\<^verbatim>\<open>s.rjust(w, '0')\<close>; \<^verbatim>\<open>"{0:08b}".format(n)\<close> is \<open>rjust0 8 (bin_digits n)\<close>.\<close>

definition rjust0 :: "nat \<Rightarrow> bits \<Rightarrow> bits" where
  "rjust0 w s = replicate (w - length s) B0 @ s"

definition format_08b :: "nat \<Rightarrow> bits" where
  "format_08b n = rjust0 8 (bin_digits n)"

section \<open>Padding and byte packing\<close>

text \<open>
  \<^verbatim>\<open>
  def pad_encoded_text(self, encoded_text):
      extra_padding = 8 - len(encoded_text) % 8
      return "{0:08b}".format(extra_padding) + encoded_text + "0" * extra_padding
  \<close>
\<close>

definition extra_padding :: "bits \<Rightarrow> nat" where
  "extra_padding encoded_text = 8 - length encoded_text mod 8"

definition pad_encoded_text :: "bits \<Rightarrow> bits" where
  "pad_encoded_text encoded_text =
     format_08b (extra_padding encoded_text) @ encoded_text
       @ replicate (extra_padding encoded_text) B0"

text \<open>
  The Python slice \<^verbatim>\<open>s[8:-e]\<close>: the stop index is \<open>len(s) - e\<close>, clamped at 0, when
  \<open>e > 0\<close>, and it is \<open>-0 = 0\<close> when \<open>e = 0\<close>; a stop index at or below 8 gives the empty
  string.
\<close>

definition slice_8_neg :: "'a list \<Rightarrow> nat \<Rightarrow> 'a list" where
  "slice_8_neg s e = (let stop = (if e = 0 then 0 else length s - e) in take (stop - 8) (drop 8 s))"

text \<open>
  \<^verbatim>\<open>
  def remove_padding(self, padded_encoded_text):
      extra_padding = int(padded_encoded_text[:8], 2)
      return padded_encoded_text[8:-extra_padding]
  \<close>
\<close>

definition remove_padding :: "bits \<Rightarrow> pyerror + bits" where
  "remove_padding padded_encoded_text =
     (case int_base2 (take 8 padded_encoded_text) of
        Inl e \<Rightarrow> Inl e
      | Inr e \<Rightarrow> Inr (slice_8_neg padded_encoded_text e))"

text \<open>
  \<^verbatim>\<open>padded_encoded_text[i:i+8] for i in range(0, len(padded_encoded_text), 8)\<close>:
  the groups of 8 characters, the last one shorter when the length is no multiple of 8.
\<close>

function chunks8 :: "'a list \<Rightarrow> 'a list list" where
  "chunks8 s = (if s = [] then [] else take 8 s # chunks8 (drop 8 s))"
  by pat_completeness auto
termination
  by (relation "measure length") auto

declare chunks8.simps [simp del]

text \<open>
  \<^verbatim>\<open>
  def get_byte_array(self, padded_encoded_text):
      return bytearray(int(padded_encoded_text[i:i+8], 2) for i in range(0, len(padded_encoded_text), 8))
  \<close>
  \<^verbatim>\<open>bytearray\<close> raises \<^verbatim>\<open>ValueError\<close> for an element outside \<open>range(256)\<close>. A byte is
  a natural number below 256.
\<close>

fun bytearray :: "nat list \<Rightarrow> pyerror + nat list" where
  "bytearray [] = Inr []"
| "bytearray (n # ns) =
     (if n < 256 then (case bytearray ns of Inl e \<Rightarrow> Inl e | Inr bs \<Rightarrow> Inr (n # bs))
      else Inl ValueError)"

definition get_byte_array :: "bits \<Rightarrow> pyerror + nat list" where
  "get_byte_array padded_encoded_text = bytearray (map bits_val (chunks8 padded_encoded_text))"

text \<open>
  The unpacking loop of \<^verbatim>\<open>decompress\<close>:
  \<^verbatim>\<open>
  bits = bin(int.from_bytes(byte, 'big'))[2:].rjust(8, '0')
  bit_chunks.append(bits)
  ...
  bit_string = ''.join(bit_chunks)
  \<close>
\<close>

definition unpack_bytes :: "nat list \<Rightarrow> bits" where
  "unpack_bytes bs = concat (map (\<lambda>byte. rjust0 8 (bin_digits byte)) bs)"

section \<open>Python dictionaries\<close>

text \<open>
  A \<^verbatim>\<open>dict\<close> keeps its keys in the order of their first insertion, and the loops of
  the program iterate in that order: a dictionary is an association list with distinct
  keys. \<open>map_of\<close> is the lookup; \<open>dict_set d k v\<close> is \<^verbatim>\<open>d[k] = v\<close>, which
  replaces the value of a key already present, in place, and appends a new key.
\<close>

fun dict_set :: "('k \<times> 'v) list \<Rightarrow> 'k \<Rightarrow> 'v \<Rightarrow> ('k \<times> 'v) list" where
  "dict_set [] k v = [(k, v)]"
| "dict_set ((k', v') # d) k v =
     (if k' = k then (k, v) # d else (k', v') # dict_set d k v)"

section \<open>Frequency table\<close>

text \<open>
  \<^verbatim>\<open>
  def make_frequency_dict(self, text):
      frequency = {}
      for character in text:
          frequency[character] = frequency.get(character, 0) + 1
      return frequency
  \<close>
\<close>

definition make_frequency_dict :: "'a list \<Rightarrow> ('a \<times> int) list" where
  "make_frequency_dict text =
     foldl (\<lambda>frequency character.
              dict_set frequency character
                ((case map_of frequency character of None \<Rightarrow> 0 | Some n \<Rightarrow> n) + 1))
       [] text"

section \<open>Heap nodes and the heapq module\<close>

text \<open>
  \<^verbatim>\<open>
  class HeapNode:
      def __init__(self, char, freq):
          self.char = char
          self.freq = freq
          self.left = None
          self.right = None

      def __lt__(self, other):
          return self.freq < other.freq
  \<close>
  \<open>None\<close> is Python's \<^verbatim>\<open>None\<close> in the fields \<open>char\<close>, \<open>left\<close> and \<open>right\<close>.
\<close>

datatype 'a HeapNode =
  HeapNode (char: "'a option") (freq: int) (left: "'a HeapNode option") (right: "'a HeapNode option")

definition node_lt :: "'a HeapNode \<Rightarrow> 'a HeapNode \<Rightarrow> bool" where
  "node_lt self other = (freq self < freq other)"

text \<open>
  The functions of CPython's \<^verbatim>\<open>heapq\<close> that the program calls, on a Python list. In
  every call below the indices read are inside the list: \<open>heappush\<close> sifts the last
  index of a list it has just extended, \<open>heappop\<close> sifts index 0 of a non-empty list.
  \<^verbatim>\<open>
  def _siftdown(heap, startpos, pos):
      newitem = heap[pos]
      while pos > startpos:
          parentpos = (pos - 1) >> 1
          parent = heap[parentpos]
          if newitem < parent:
              heap[pos] = parent
              pos = parentpos
              continue
          break
      heap[pos] = newitem
  \<close>
\<close>

function siftdown_loop ::
  "'a HeapNode list \<Rightarrow> nat \<Rightarrow> nat \<Rightarrow> 'a HeapNode \<Rightarrow> 'a HeapNode list" where
  "siftdown_loop h startpos pos newitem =
     (if pos > startpos then
        (if node_lt newitem (h ! ((pos - 1) div 2))
         then siftdown_loop (h[pos := h ! ((pos - 1) div 2)]) startpos ((pos - 1) div 2) newitem
         else h[pos := newitem])
      else h[pos := newitem])"
  by pat_completeness auto
termination
  by (relation "measure (\<lambda>(h, startpos, pos, newitem). pos)") auto

declare siftdown_loop.simps [simp del]

definition siftdown :: "'a HeapNode list \<Rightarrow> nat \<Rightarrow> nat \<Rightarrow> 'a HeapNode list" where
  "siftdown h startpos pos = siftdown_loop h startpos pos (h ! pos)"

text \<open>
  \<^verbatim>\<open>
  def _siftup(heap, pos):
      endpos = len(heap)
      startpos = pos
      newitem = heap[pos]
      childpos = 2*pos + 1
      while childpos < endpos:
          rightpos = childpos + 1
          if rightpos < endpos and not heap[childpos] < heap[rightpos]:
              childpos = rightpos
          heap[pos] = heap[childpos]
          pos = childpos
          childpos = 2*pos + 1
      heap[pos] = newitem
      _siftdown(heap, startpos, pos)
  \<close>
  The loop returns the list and the position of the hole it has moved down.
\<close>

definition smaller_child :: "'a HeapNode list \<Rightarrow> nat \<Rightarrow> nat \<Rightarrow> nat" where
  "smaller_child h endpos childpos =
     (if childpos + 1 < endpos \<and> \<not> node_lt (h ! childpos) (h ! (childpos + 1))
      then childpos + 1 else childpos)"

function siftup_loop ::
  "'a HeapNode list \<Rightarrow> nat \<Rightarrow> nat \<Rightarrow> 'a HeapNode list \<times> nat" where
  "siftup_loop h endpos pos =
     (if 2 * pos + 1 < endpos then
        siftup_loop (h[pos := h ! smaller_child h endpos (2 * pos + 1)]) endpos
          (smaller_child h endpos (2 * pos + 1))
      else (h, pos))"
  by pat_completeness auto
termination
  by (relation "measure (\<lambda>(h, endpos, pos). endpos - pos)")
    (auto simp: smaller_child_def)

declare siftup_loop.simps [simp del]

definition siftup :: "'a HeapNode list \<Rightarrow> nat \<Rightarrow> 'a HeapNode list" where
  "siftup h pos =
     (let newitem = h ! pos;
          (h', pos') = siftup_loop h (length h) pos
      in siftdown (h'[pos' := newitem]) pos pos')"

text \<open>
  \<^verbatim>\<open>
  def heappush(heap, item):
      heap.append(item)
      _siftdown(heap, 0, len(heap)-1)

  def heappop(heap):
      lastelt = heap.pop()    # raises appropriate IndexError if heap is empty
      if heap:
          returnitem = heap[0]
          heap[0] = lastelt
          _siftup(heap, 0)
          return returnitem
      return lastelt
  \<close>
\<close>

definition heappush :: "'a HeapNode list \<Rightarrow> 'a HeapNode \<Rightarrow> 'a HeapNode list" where
  "heappush h item = siftdown (h @ [item]) 0 (length (h @ [item]) - 1)"

definition heappop :: "'a HeapNode list \<Rightarrow> pyerror + ('a HeapNode \<times> 'a HeapNode list)" where
  "heappop h =
     (if h = [] then Inl IndexError
      else if butlast h \<noteq> [] then Inr (butlast h ! 0, siftup ((butlast h)[0 := last h]) 0)
      else Inr (last h, butlast h))"

section \<open>The HuffmanCoding object\<close>

text \<open>
  \<^verbatim>\<open>
  def __init__(self, path):
      self.path = path
      self.heap = []
      self.codes = {}
      self.reverse_mapping = {}
  \<close>
  The fields \<open>heap\<close> and \<open>codes\<close> are the state that the methods mutate.
  \<open>reverse_mapping\<close> is never read or written again; \<open>path\<close> only names the files,
  whose contents are arguments of the functions below.
\<close>

record 'a HuffmanCoding =
  heap :: "'a HeapNode list"
  codes :: "('a \<times> bits) list"

definition init :: "'a HuffmanCoding" where
  "init = \<lparr>heap = [], codes = []\<rparr>"

text \<open>
  \<^verbatim>\<open>
  def make_heap(self, frequency):
      for key in frequency:
          heapq.heappush(self.heap, self.HeapNode(key, frequency[key]))
  \<close>
  The loop visits the keys in insertion order, and \<^verbatim>\<open>frequency[key]\<close> is the value
  stored with the key.
\<close>

definition make_heap :: "'a HuffmanCoding \<Rightarrow> ('a \<times> int) list \<Rightarrow> 'a HuffmanCoding" where
  "make_heap self frequency =
     foldl (\<lambda>s (key, f). s\<lparr>heap := heappush (heap s) (HeapNode (Some key) f None None)\<rparr>)
       self frequency"

lemma length_siftdown_loop [simp]: "length (siftdown_loop h startpos pos newitem) = length h"
  by (induction h startpos pos newitem rule: siftdown_loop.induct)
    (subst siftdown_loop.simps, simp)

lemma length_siftdown [simp]: "length (siftdown h startpos pos) = length h"
  by (simp add: siftdown_def)

lemma length_siftup_loop [simp]: "length (fst (siftup_loop h endpos pos)) = length h"
  by (induction h endpos pos rule: siftup_loop.induct)
    (subst siftup_loop.simps, simp)

lemma length_siftup [simp]: "length (siftup h pos) = length h"
  using length_siftup_loop [of h "length h" pos]
  by (cases "siftup_loop h (length h) pos") (simp add: siftup_def)

lemma length_heappush [simp]: "length (heappush h item) = Suc (length h)"
  by (simp add: heappush_def)

lemma length_heappop: "heappop h = Inr (item, h') \<Longrightarrow> length h = Suc (length h')"
  by (cases h rule: rev_cases) (auto simp: heappop_def split: if_splits)

text \<open>
  \<^verbatim>\<open>
  def merge_nodes(self):
      while len(self.heap) > 1:
          node1 = heapq.heappop(self.heap)
          node2 = heapq.heappop(self.heap)
          merged = self.HeapNode(None, node1.freq + node2.freq)
          merged.left = node1
          merged.right = node2
          heapq.heappush(self.heap, merged)
  \<close>
\<close>

function merge_nodes_loop :: "'a HeapNode list \<Rightarrow> pyerror + 'a HeapNode list" where
  "merge_nodes_loop h =
     (if length h > 1 then
        (case heappop h of
           Inl e \<Rightarrow> Inl e
         | Inr (node1, h1) \<Rightarrow>
             (case heappop h1 of
                Inl e \<Rightarrow> Inl e
              | Inr (node2, h2) \<Rightarrow>
                  merge_nodes_loop
                    (heappush h2 (HeapNode None (freq node1 + freq node2) (Some node1) (Some node2)))))
      else Inr h)"
  by pat_completeness auto
termination
  by (relation "measure length") (auto dest!: length_heappop)

declare merge_nodes_loop.simps [simp del]

definition merge_nodes :: "'a HuffmanCoding \<Rightarrow> pyerror + 'a HuffmanCoding" where
  "merge_nodes self =
     (case merge_nodes_loop (heap self) of
        Inl e \<Rightarrow> Inl e
      | Inr h \<Rightarrow> Inr (self\<lparr>heap := h\<rparr>))"

text \<open>
  \<^verbatim>\<open>
  def make_codes_helper(self, root, current_code):
      if root is None:
          return
      if root.char is not None:
          self.codes[root.char] = current_code
          return
      self.make_codes_helper(root.left, current_code + "0")
      self.make_codes_helper(root.right, current_code + "1")
  \<close>
  The function threads the dictionary \<open>self.codes\<close>. The recursion limit of the
  interpreter is not modelled: the function also returns on a tree deeper than the limit,
  on which Python raises \<^verbatim>\<open>RecursionError\<close>, after \<^verbatim>\<open>make_codes\<close> has taken the
  root from the heap.
\<close>

fun make_codes_helper ::
  "'a HeapNode option \<Rightarrow> bits \<Rightarrow> ('a \<times> bits) list \<Rightarrow> ('a \<times> bits) list" where
  "make_codes_helper None current_code cs = cs"
| "make_codes_helper (Some (HeapNode c f l r)) current_code cs =
     (case c of
        Some ch \<Rightarrow> dict_set cs ch current_code
      | None \<Rightarrow>
          make_codes_helper r (current_code @ [B1])
            (make_codes_helper l (current_code @ [B0]) cs))"

text \<open>
  \<^verbatim>\<open>
  def make_codes(self):
      root = heapq.heappop(self.heap)
      self.make_codes_helper(root, "")
  \<close>
\<close>

definition make_codes :: "'a HuffmanCoding \<Rightarrow> pyerror + 'a HuffmanCoding" where
  "make_codes self =
     (case heappop (heap self) of
        Inl e \<Rightarrow> Inl e
      | Inr (root, h) \<Rightarrow> Inr \<lparr>heap = h, codes = make_codes_helper (Some root) [] (codes self)\<rparr>)"

text \<open>
  \<^verbatim>\<open>
  def get_encoded_text(self, text):
      return ''.join(self.codes[char] for char in text)
  \<close>
  \<^verbatim>\<open>self.codes[char]\<close> raises \<^verbatim>\<open>KeyError\<close> for a missing key.
\<close>

fun get_encoded_text :: "('a \<times> bits) list \<Rightarrow> 'a list \<Rightarrow> pyerror + bits" where
  "get_encoded_text cs [] = Inr []"
| "get_encoded_text cs (c # text) =
     (case map_of cs c of
        None \<Rightarrow> Inl KeyError
      | Some code \<Rightarrow>
          (case get_encoded_text cs text of
             Inl e \<Rightarrow> Inl e
           | Inr rest \<Rightarrow> Inr (code @ rest)))"

section \<open>Decoding\<close>

text \<open>
  The decode tree is a nest of dictionaries whose keys are the bit characters and the
  string \<^verbatim>\<open>'char'\<close>. \<open>DNode c n0 n1\<close> is the dictionary with the value \<open>c\<close> under
  \<^verbatim>\<open>'char'\<close>, \<open>n0\<close> under \<^verbatim>\<open>'0'\<close> and \<open>n1\<close> under \<^verbatim>\<open>'1'\<close>, \<open>None\<close> for a key
  that is absent.
  \<^verbatim>\<open>
  def build_decode_tree(self):
      tree = {}
      for char, code in self.codes.items():
          node = tree
          for bit in code:
              node = node.setdefault(bit, {})
          node['char'] = char
      return tree
  \<close>
  \<open>insert_code\<close> is one round of the outer loop: the dictionaries are mutated in place
  through the alias \<open>node\<close>, so the round returns the tree with the path of \<open>code\<close>
  created where it was missing and \<^verbatim>\<open>'char'\<close> set at its end.
\<close>

datatype 'a dnode =
  DNode (dchar: "'a option") (child0: "'a dnode option") (child1: "'a dnode option")

definition empty_dict :: "'a dnode" where
  "empty_dict = DNode None None None"

definition setdefault :: "'a dnode option \<Rightarrow> 'a dnode" where
  "setdefault entry = (case entry of None \<Rightarrow> empty_dict | Some n \<Rightarrow> n)"

fun insert_code :: "'a dnode \<Rightarrow> bits \<Rightarrow> 'a \<Rightarrow> 'a dnode" where
  "insert_code (DNode c n0 n1) [] ch = DNode (Some ch) n0 n1"
| "insert_code (DNode c n0 n1) (B0 # code) ch =
     DNode c (Some (insert_code (setdefault n0) code ch)) n1"
| "insert_code (DNode c n0 n1) (B1 # code) ch =
     DNode c n0 (Some (insert_code (setdefault n1) code ch))"

definition build_decode_tree :: "('a \<times> bits) list \<Rightarrow> 'a dnode" where
  "build_decode_tree cs = foldl (\<lambda>tree (ch, code). insert_code tree code ch) empty_dict cs"

text \<open>
  \<^verbatim>\<open>
  def decode_text_tree(self, encoded_text, tree):
      node = tree
      decoded_text = []
      for bit in encoded_text:
          node = node[bit]
          if 'char' in node:
              decoded_text.append(node['char'])
              node = tree
      return ''.join(decoded_text)
  \<close>
  \<^verbatim>\<open>node[bit]\<close> raises \<^verbatim>\<open>KeyError\<close> for a missing key. \<open>decode_loop\<close> returns the list
  \<open>decoded_text\<close>; the join is done by the caller, who knows the type of the symbols.
\<close>

definition subscript :: "'a dnode \<Rightarrow> bit \<Rightarrow> 'a dnode option" where
  "subscript node b = (case b of B0 \<Rightarrow> child0 node | B1 \<Rightarrow> child1 node)"

fun decode_loop :: "'a dnode \<Rightarrow> 'a dnode \<Rightarrow> bits \<Rightarrow> 'a list \<Rightarrow> pyerror + 'a list" where
  "decode_loop tree node [] decoded_text = Inr decoded_text"
| "decode_loop tree node (b # encoded_text) decoded_text =
     (case subscript node b of
        None \<Rightarrow> Inl KeyError
      | Some node' \<Rightarrow>
          (case dchar node' of
             Some ch \<Rightarrow> decode_loop tree tree encoded_text (decoded_text @ [ch])
           | None \<Rightarrow> decode_loop tree node' encoded_text decoded_text))"

definition decode_text_tree :: "bits \<Rightarrow> 'a dnode \<Rightarrow> pyerror + 'a list" where
  "decode_text_tree encoded_text tree = decode_loop tree tree encoded_text []"

text \<open>
  Both \<^verbatim>\<open>compress\<close> and \<^verbatim>\<open>decompress\<close> run the three calls
  \<^verbatim>\<open>
  self.make_heap(frequency)
  self.merge_nodes()
  self.make_codes()
  \<close>
  \<open>build\<close> is that sequence. It returns the object as the calls leave it, also when one
  of them raises, and the exception raised, if any.
\<close>

definition build ::
  "'a HuffmanCoding \<Rightarrow> ('a \<times> int) list \<Rightarrow> 'a HuffmanCoding \<times> (pyerror + unit)" where
  "build self frequency =
     (case merge_nodes (make_heap self frequency) of
        Inl e \<Rightarrow> (make_heap self frequency, Inl e)
      | Inr s \<Rightarrow>
          (case make_codes s of
             Inl e \<Rightarrow> (s, Inl e)
           | Inr s' \<Rightarrow> (s', Inr ())))"

section \<open>The header: json.dumps and json.loads\<close>

text \<open>
  A Python \<^verbatim>\<open>str\<close> is the list of its code points; a symbol of the text is a string of
  length 1. Bytes are natural numbers. \<open>ascii\<close> turns a literal into its bytes.
\<close>

type_synonym pystr = "nat list"

definition ascii :: "string \<Rightarrow> nat list" where
  "ascii s = map of_char s"

definition characters :: "pystr \<Rightarrow> pystr list" where
  "characters text = map (\<lambda>c. [c]) text"

text \<open>
  \<^verbatim>\<open>json.dumps(header)\<close> with the default options (\<^verbatim>\<open>ensure_ascii=True\<close>, separators
  \<^verbatim>\<open>', '\<close> and \<^verbatim>\<open>': '\<close>, no indentation) for
  \<^verbatim>\<open>header = {"frequency": frequency, "original_extension": ext}\<close>. A string is
  written by \<^verbatim>\<open>json.encoder.py_encode_basestring_ascii\<close>: the characters from space
  to \<^verbatim>\<open>~\<close> stand for themselves, except the quote and the backslash; the others are
  escaped, a code point from 0x10000 on as a surrogate pair.
\<close>

definition hex_digit :: "nat \<Rightarrow> nat" where
  "hex_digit d = (if d < 10 then 48 + d else 87 + d)"

text \<open>\<^verbatim>\<open>'\\u{0:04x}'.format(n)\<close> for \<open>n < 0x10000\<close>.\<close>

definition u_escape :: "nat \<Rightarrow> nat list" where
  "u_escape n =
     [92, 117, hex_digit (n div 4096 mod 16), hex_digit (n div 256 mod 16),
      hex_digit (n div 16 mod 16), hex_digit (n mod 16)]"

definition escape_char :: "nat \<Rightarrow> nat list" where
  "escape_char n =
     (if n = 34 then [92, 34]
      else if n = 92 then [92, 92]
      else if n = 10 then [92, 110]
      else if n = 13 then [92, 114]
      else if n = 9 then [92, 116]
      else if n = 8 then [92, 98]
      else if n = 12 then [92, 102]
      else if 32 \<le> n \<and> n \<le> 126 then [n]
      else if n < 65536 then u_escape n
      else u_escape (55296 + (n - 65536) div 1024 mod 1024)
             @ u_escape (56320 + (n - 65536) mod 1024))"

definition encode_basestring_ascii :: "pystr \<Rightarrow> nat list" where
  "encode_basestring_ascii s = [34] @ concat (map escape_char s) @ [34]"

text \<open>\<^verbatim>\<open>int.__repr__\<close>: decimal digits, with a minus sign for a negative number.\<close>

function dec_digits :: "nat \<Rightarrow> nat list" where
  "dec_digits n = (if n < 10 then [48 + n] else dec_digits (n div 10) @ [48 + n mod 10])"
  by pat_completeness auto
termination
  by (relation "measure id") auto

declare dec_digits.simps [simp del]

definition int_repr :: "int \<Rightarrow> nat list" where
  "int_repr i = (if i < 0 then 45 # dec_digits (nat (- i)) else dec_digits (nat i))"

fun join_items :: "nat list list \<Rightarrow> nat list" where
  "join_items [] = []"
| "join_items [x] = x"
| "join_items (x # y # ys) = x @ [44, 32] @ join_items (y # ys)"

definition dumps_frequency :: "(pystr \<times> int) list \<Rightarrow> nat list" where
  "dumps_frequency frequency =
     [123] @ join_items (map (\<lambda>(key, f). encode_basestring_ascii key @ [58, 32] @ int_repr f)
                          frequency) @ [125]"

definition json_dumps_header :: "(pystr \<times> int) list \<Rightarrow> pystr \<Rightarrow> nat list" where
  "json_dumps_header frequency ext =
     [123] @ encode_basestring_ascii (ascii ''frequency'') @ [58, 32]
       @ dumps_frequency frequency @ [44, 32]
       @ encode_basestring_ascii (ascii ''original_extension'') @ [58, 32]
       @ encode_basestring_ascii ext @ [125]"

text \<open>
  \<^verbatim>\<open>json.loads\<close>, restricted to the documents that \<^verbatim>\<open>json.dumps\<close> writes for a
  header: an object with the key \<^verbatim>\<open>"frequency"\<close>, whose value is an object from
  strings to integers, then the key \<^verbatim>\<open>"original_extension"\<close>, whose value is a
  string, with the separators \<^verbatim>\<open>', '\<close> and \<^verbatim>\<open>': '\<close> and ASCII characters only.
  The strings are read as \<^verbatim>\<open>json.decoder.py_scanstring\<close> reads them, the integers as
  the number pattern of \<^verbatim>\<open>json.scanner\<close> does. On these documents the result is the
  dictionary that \<^verbatim>\<open>json.loads\<close> returns, read at the two keys. Every other byte
  sequence is answered with \<open>OutsideModel\<close>: Python rejects some of them, with
  \<^verbatim>\<open>JSONDecodeError\<close>, \<^verbatim>\<open>UnicodeDecodeError\<close> or \<^verbatim>\<open>KeyError\<close>, and accepts
  others (other white space or separators, other members, counts that are no integers, on
  which \<^verbatim>\<open>heappush\<close> can raise \<^verbatim>\<open>TypeError\<close> after it has appended a node).
  The limit of Python 3.11 and later on the number of digits of an integer (4300 unless
  configured), beyond which \<^verbatim>\<open>json.loads\<close> raises \<^verbatim>\<open>ValueError\<close>, is not modelled.
  Every statement below about what \<open>decompress\<close> returns is about a file whose header is
  a document of the layout above.
\<close>

definition hex_val :: "nat \<Rightarrow> nat option" where
  "hex_val c =
     (if 48 \<le> c \<and> c \<le> 57 then Some (c - 48)
      else if 97 \<le> c \<and> c \<le> 102 then Some (c - 87)
      else if 65 \<le> c \<and> c \<le> 70 then Some (c - 55)
      else None)"

fun decode_uXXXX :: "nat list \<Rightarrow> nat option" where
  "decode_uXXXX [a, b, c, d] =
     (case (hex_val a, hex_val b, hex_val c, hex_val d) of
        (Some x, Some y, Some z, Some w) \<Rightarrow> Some (((x * 16 + y) * 16 + z) * 16 + w)
      | _ \<Rightarrow> None)"
| "decode_uXXXX _ = None"

definition backslash :: "nat \<Rightarrow> nat option" where
  "backslash e =
     (if e = 34 then Some 34
      else if e = 92 then Some 92
      else if e = 47 then Some 47
      else if e = 98 then Some 8
      else if e = 102 then Some 12
      else if e = 110 then Some 10
      else if e = 114 then Some 13
      else if e = 116 then Some 9
      else None)"

text \<open>
  \<open>scanstring s acc\<close> reads a string literal whose opening quote has been consumed and
  returns the string and the input after the closing quote.
\<close>

function scanstring :: "nat list \<Rightarrow> pystr \<Rightarrow> pyerror + (pystr \<times> nat list)" where
  "scanstring [] acc = Inl OutsideModel"
| "scanstring (c # r) acc =
     (if c = 34 then Inr (acc, r)
      else if c = 92 then
        (case r of
           [] \<Rightarrow> Inl OutsideModel
         | e # r' \<Rightarrow>
             if e = 117 then
               (case decode_uXXXX (take 4 r') of
                  None \<Rightarrow> Inl OutsideModel
                | Some uni \<Rightarrow>
                    if 55296 \<le> uni \<and> uni \<le> 56319 \<and> take 2 (drop 4 r') = [92, 117] then
                      (case decode_uXXXX (take 4 (drop 6 r')) of
                         None \<Rightarrow> Inl OutsideModel
                       | Some uni2 \<Rightarrow>
                           if 56320 \<le> uni2 \<and> uni2 \<le> 57343 then
                             scanstring (drop 10 r')
                               (acc @ [65536 + ((uni - 55296) * 1024 + (uni2 - 56320))])
                           else scanstring (drop 4 r') (acc @ [uni]))
                    else scanstring (drop 4 r') (acc @ [uni]))
             else
               (case backslash e of
                  None \<Rightarrow> Inl OutsideModel
                | Some ch \<Rightarrow> scanstring r' (acc @ [ch])))
      else if c < 32 \<or> 128 \<le> c then Inl OutsideModel
      else scanstring r (acc @ [c]))"
  by pat_completeness auto
termination
  by (relation "measure (\<lambda>(s, acc). length s)") auto

definition is_digit :: "nat \<Rightarrow> bool" where
  "is_digit c = (48 \<le> c \<and> c \<le> 57)"

definition digits_val :: "nat list \<Rightarrow> nat" where
  "digits_val ds = foldl (\<lambda>a d. 10 * a + (d - 48)) 0 ds"

definition scan_nat :: "nat list \<Rightarrow> pyerror + (nat \<times> nat list)" where
  "scan_nat s =
     (let ds = takeWhile is_digit s; rest = dropWhile is_digit s
      in if ds = [] \<or> (1 < length ds \<and> hd ds = 48) then Inl OutsideModel
         else if rest \<noteq> [] \<and> hd rest \<in> {46, 69, 101} then Inl OutsideModel
         else Inr (digits_val ds, rest))"

definition scan_int :: "nat list \<Rightarrow> pyerror + (int \<times> nat list)" where
  "scan_int s =
     (case s of
        [] \<Rightarrow> Inl OutsideModel
      | c # r \<Rightarrow>
          if c = 45 then
            (case scan_nat r of Inl e \<Rightarrow> Inl e | Inr (n, rest) \<Rightarrow> Inr (- int n, rest))
          else
            (case scan_nat s of Inl e \<Rightarrow> Inl e | Inr (n, rest) \<Rightarrow> Inr (int n, rest)))"

definition expect :: "nat list \<Rightarrow> nat list \<Rightarrow> pyerror + nat list" where
  "expect lit s =
     (if take (length lit) s = lit then Inr (drop (length lit) s) else Inl OutsideModel)"

lemma scanstring_length: "scanstring s acc = Inr (k, r) \<Longrightarrow> length r < length s"
proof (induction s acc arbitrary: k r rule: scanstring.induct)
  case (1 acc)
  then show ?case by simp
next
  case (2 c r0 acc)
  show ?case
  proof (cases "c = 34")
    case True
    with "2.prems" show ?thesis by simp
  next
    case c34: False
    show ?thesis
    proof (cases "c = 92")
      case False
      with c34 "2.prems" have bounds: "\<not> (c < 32 \<or> 128 \<le> c)" and eq: "scanstring r0 (acc @ [c]) = Inr (k, r)"
        by (auto split: if_splits)
      from "2.IH"(5) [OF c34 False bounds eq] show ?thesis by simp
    next
      case True
      then obtain e r' where r0: "r0 = e # r'"
        using "2.prems" c34 by (cases r0) auto
      show ?thesis
      proof (cases "e = 117")
        case False
        then obtain ch where b: "backslash e = Some ch" and eq: "scanstring r' (acc @ [ch]) = Inr (k, r)"
          using "2.prems" c34 True r0 by (auto split: option.splits)
        from "2.IH"(4) [OF c34 True r0 False b eq] show ?thesis using r0 by simp
      next
        case e: True
        then obtain uni where u: "decode_uXXXX (take 4 r') = Some uni"
          using "2.prems" c34 True r0 by (auto split: option.splits)
        show ?thesis
        proof (cases "55296 \<le> uni \<and> uni \<le> 56319 \<and> take 2 (drop 4 r') = [92, 117]")
          case False
          then have eq: "scanstring (drop 4 r') (acc @ [uni]) = Inr (k, r)"
            using "2.prems" c34 True r0 e u by (auto split: option.splits if_splits)
          from "2.IH"(3) [OF c34 True r0 e u False eq] show ?thesis using r0 by simp
        next
          case pair: True
          then obtain uni2 where u2: "decode_uXXXX (take 4 (drop 6 r')) = Some uni2"
            using "2.prems" c34 True r0 e u by (auto split: option.splits)
          show ?thesis
          proof (cases "56320 \<le> uni2 \<and> uni2 \<le> 57343")
            case True
            then have eq: "scanstring (drop 10 r') (acc @ [65536 + ((uni - 55296) * 1024 + (uni2 - 56320))]) = Inr (k, r)"
              using "2.prems" c34 \<open>c = 92\<close> r0 e u u2 pair by (auto split: option.splits if_splits)
            from "2.IH"(1) [OF c34 \<open>c = 92\<close> r0 e u pair u2 True eq] show ?thesis using r0 by simp
          next
            case False
            then have eq: "scanstring (drop 4 r') (acc @ [uni]) = Inr (k, r)"
              using "2.prems" c34 \<open>c = 92\<close> r0 e u u2 pair by (auto split: option.splits if_splits)
            from "2.IH"(2) [OF c34 \<open>c = 92\<close> r0 e u pair u2 False eq] show ?thesis using r0 by simp
          qed
        qed
      qed
    qed
  qed
qed

lemma scan_nat_length: "scan_nat s = Inr (n, r) \<Longrightarrow> length r < length s"
proof -
  assume a: "scan_nat s = Inr (n, r)"
  then have "takeWhile is_digit s \<noteq> []" and "r = dropWhile is_digit s"
    by (auto simp: scan_nat_def Let_def split: if_splits)
  moreover have "length (takeWhile is_digit s) + length (dropWhile is_digit s) = length s"
    by (metis length_append takeWhile_dropWhile_id)
  ultimately show ?thesis by (cases "takeWhile is_digit s") auto
qed

lemma scan_int_length: "scan_int s = Inr (n, r) \<Longrightarrow> length r < length s"
  by (cases s) (auto simp: scan_int_def split: if_splits sum.splits dest!: scan_nat_length)

lemma expect_length: "expect lit s = Inr r \<Longrightarrow> length r \<le> length s"
  by (auto simp: expect_def split: if_splits)

text \<open>
  The members of the inner object, from the opening quote of a key on; \<open>d\<close> is the
  dictionary built so far, and a key read twice keeps its first position and takes the
  later value, as in Python.
\<close>

function scan_items ::
  "nat list \<Rightarrow> (pystr \<times> int) list \<Rightarrow> pyerror + ((pystr \<times> int) list \<times> nat list)" where
  "scan_items s d =
     (case expect [34] s of
        Inl e \<Rightarrow> Inl e
      | Inr s1 \<Rightarrow>
          (case scanstring s1 [] of
             Inl e \<Rightarrow> Inl e
           | Inr (key, s2) \<Rightarrow>
               (case expect [58, 32] s2 of
                  Inl e \<Rightarrow> Inl e
                | Inr s3 \<Rightarrow>
                    (case scan_int s3 of
                       Inl e \<Rightarrow> Inl e
                     | Inr (f, s4) \<Rightarrow>
                         if take 2 s4 = [44, 32] then scan_items (drop 2 s4) (dict_set d key f)
                         else if take 1 s4 = [125] then Inr (dict_set d key f, drop 1 s4)
                         else Inl OutsideModel))))"
  by pat_completeness auto
termination
proof (relation "measure (\<lambda>(s, d). length s)", goal_cases)
  case 1
  show ?case by simp
next
  case (2 s d s1 x key s2 s3 y f s4)
  then have "length s1 \<le> length s" "length s2 < length s1" "length s3 \<le> length s2"
    "length s4 < length s3"
    by (auto dest: expect_length scanstring_length scan_int_length)
  then show ?case by simp
qed

declare scan_items.simps [simp del]

definition scan_frequency ::
  "nat list \<Rightarrow> pyerror + ((pystr \<times> int) list \<times> nat list)" where
  "scan_frequency s =
     (case expect [123] s of
        Inl e \<Rightarrow> Inl e
      | Inr s1 \<Rightarrow> if take 1 s1 = [125] then Inr ([], drop 1 s1) else scan_items s1 [])"

definition json_loads_header :: "nat list \<Rightarrow> pyerror + ((pystr \<times> int) list \<times> pystr)" where
  "json_loads_header s =
     (case expect ([123] @ encode_basestring_ascii (ascii ''frequency'') @ [58, 32]) s of
        Inl e \<Rightarrow> Inl e
      | Inr s1 \<Rightarrow>
          (case scan_frequency s1 of
             Inl e \<Rightarrow> Inl e
           | Inr (frequency, s2) \<Rightarrow>
               (case expect ([44, 32] @ encode_basestring_ascii (ascii ''original_extension'')
                               @ [58, 32, 34]) s2 of
                  Inl e \<Rightarrow> Inl e
                | Inr s3 \<Rightarrow>
                    (case scanstring s3 [] of
                       Inl e \<Rightarrow> Inl e
                     | Inr (ext, s4) \<Rightarrow>
                         if s4 = [125] then Inr (frequency, ext) else Inl OutsideModel))))"

section \<open>compress and decompress\<close>

text \<open>
  \<^verbatim>\<open>
  def compress(self, save_dir="compressed"):
      ...
      ext = os.path.splitext(self.path)[1]
      ...
      with open(self.path, 'r', encoding='utf-8', errors='ignore') as file:
          text = file.read()

      frequency = self.make_frequency_dict(text)
      self.make_heap(frequency)
      self.merge_nodes()
      self.make_codes()

      encoded_text = self.get_encoded_text(text)
      padded_encoded_text = self.pad_encoded_text(encoded_text)
      byte_array = self.get_byte_array(padded_encoded_text)

      header = {
          "frequency": frequency,
          "original_extension": ext
      }

      with open(output_path, 'wb') as output:
          output.write((json.dumps(header) + '\\n').encode('utf-8'))
          output.write(byte_array)
      ...
  \<close>
  The text read from the input file and the extension of its path are arguments; the result
  is the object after the call and the bytes written to the output file, or the exception
  raised. The output of \<^verbatim>\<open>json.dumps\<close> is ASCII, so its UTF-8 encoding is the same
  list of numbers. The file names, the directory and the reported sizes and times are not
  modelled.
\<close>

definition compress ::
  "pystr HuffmanCoding \<Rightarrow> pystr \<Rightarrow> pystr \<Rightarrow> pystr HuffmanCoding \<times> (pyerror + nat list)" where
  "compress self text ext =
     (let frequency = make_frequency_dict (characters text) in
      case build self frequency of
        (s, Inl e) \<Rightarrow> (s, Inl e)
      | (s, Inr _) \<Rightarrow>
          (case get_encoded_text (codes s) (characters text) of
             Inl e \<Rightarrow> (s, Inl e)
           | Inr encoded_text \<Rightarrow>
               (case get_byte_array (pad_encoded_text encoded_text) of
                  Inl e \<Rightarrow> (s, Inl e)
                | Inr byte_array \<Rightarrow>
                    (s, Inr (json_dumps_header frequency ext @ [10] @ byte_array)))))"

text \<open>
  The first loop of \<^verbatim>\<open>decompress\<close>:
  \<^verbatim>\<open>
  header_bytes = b""
  while True:
      byte = file.read(1)
      if byte == b'\\n':
          break
      header_bytes += byte
  \<close>
  At the end of the file \<^verbatim>\<open>file.read(1)\<close> returns \<^verbatim>\<open>b""\<close>, which is not the
  delimiter, and the loop goes on with the same state: on a file without the byte 10 it
  never ends. \<open>None\<close> is that outcome. The result is the header bytes and the bytes
  after the delimiter, which the rest of the function reads.
\<close>

partial_function (option) read_header :: "nat list \<Rightarrow> nat list \<Rightarrow> (nat list \<times> nat list) option"
  where
  "read_header file header_bytes =
     (case file of
        [] \<Rightarrow> read_header [] header_bytes
      | byte # rest \<Rightarrow>
          if byte = 10 then Some (header_bytes, rest)
          else read_header rest (header_bytes @ [byte]))"

declare read_header.simps [code]

text \<open>
  \<^verbatim>\<open>
  def decompress(self, save_dir="decompressed"):
      ...
      with open(self.path, 'rb') as file:
          (the loop above)
          header = json.loads(header_bytes.decode('utf-8'))
          frequency = header["frequency"]
          ext = header["original_extension"]

          self.make_heap(frequency)
          self.merge_nodes()
          self.make_codes()

          bit_chunks = []
          byte = file.read(1)
          while byte:
              bits = bin(int.from_bytes(byte, 'big'))[2:].rjust(8, '0')
              bit_chunks.append(bits)
              byte = file.read(1)
          bit_string = ''.join(bit_chunks)

          encoded_text = self.remove_padding(bit_string)
          decode_tree = self.build_decode_tree()
          decompressed_text = self.decode_text_tree(encoded_text, decode_tree)

      output_path = os.path.join(save_dir, f"{filename}_decompressed{ext}")
      with open(output_path, 'w', encoding='utf-8') as output:
          output.write(decompressed_text)
      ...
  \<close>
  The argument is the content of the input file. The result is \<open>None\<close> when the call
  does not return; otherwise the object after the call and either the exception raised or
  the extension and the text written to the output file. The output file is opened with
  the encoding UTF-8, in which a surrogate code point cannot be written:
  \<^verbatim>\<open>output.write\<close> raises \<^verbatim>\<open>UnicodeEncodeError\<close> for a text that contains one. The
  name of the output file and the file system are not modelled. On a header outside the
  documents described above the result is \<open>OutsideModel\<close>, with the object unchanged, and
  says nothing about the program.
\<close>

definition surrogate :: "nat \<Rightarrow> bool" where
  "surrogate c = (55296 \<le> c \<and> c \<le> 57343)"

definition write_utf8 :: "pystr \<Rightarrow> pyerror + pystr" where
  "write_utf8 s = (if list_ex surrogate s then Inl UnicodeEncodeError else Inr s)"

definition decompress_body ::
  "pystr HuffmanCoding \<Rightarrow> nat list \<Rightarrow> nat list
     \<Rightarrow> pystr HuffmanCoding \<times> (pyerror + (pystr \<times> pystr))" where
  "decompress_body self header_bytes payload =
     (case json_loads_header header_bytes of
        Inl e \<Rightarrow> (self, Inl e)
      | Inr (frequency, ext) \<Rightarrow>
          (case build self frequency of
             (s, Inl e) \<Rightarrow> (s, Inl e)
           | (s, Inr _) \<Rightarrow>
               (case remove_padding (unpack_bytes payload) of
                  Inl e \<Rightarrow> (s, Inl e)
                | Inr encoded_text \<Rightarrow>
                    (case decode_text_tree encoded_text (build_decode_tree (codes s)) of
                       Inl e \<Rightarrow> (s, Inl e)
                     | Inr decoded_text \<Rightarrow>
                         (case write_utf8 (concat decoded_text) of
                            Inl e \<Rightarrow> (s, Inl e)
                          | Inr written \<Rightarrow> (s, Inr (ext, written)))))))"

definition decompress ::
  "pystr HuffmanCoding \<Rightarrow> nat list
     \<Rightarrow> (pystr HuffmanCoding \<times> (pyerror + (pystr \<times> pystr))) option" where
  "decompress self file =
     (case read_header file [] of
        None \<Rightarrow> None
      | Some (header_bytes, payload) \<Rightarrow> Some (decompress_body self header_bytes payload))"

section \<open>Notions used in the statements and proofs\<close>

text \<open>
  \<open>paths t\<close> lists, in the order of the traversal of \<open>make_codes_helper\<close>, the symbols
  that the traversal meets and the bits it has appended on the way to each: the entries
  that \<open>make_codes_helper t ""\<close> assigns. \<open>symbols\<close> and \<open>code_table\<close> are the symbols
  and the entries of a tree.
\<close>

fun paths :: "'a HeapNode option \<Rightarrow> ('a \<times> bits) list" where
  "paths None = []"
| "paths (Some (HeapNode c f l r)) =
     (case c of
        Some ch \<Rightarrow> [(ch, [])]
      | None \<Rightarrow> map (\<lambda>(x, p). (x, B0 # p)) (paths l) @ map (\<lambda>(x, p). (x, B1 # p)) (paths r))"

definition symbols :: "'a HeapNode \<Rightarrow> 'a list" where
  "symbols t = map fst (paths (Some t))"

definition code_table :: "'a HeapNode \<Rightarrow> ('a \<times> bits) list" where
  "code_table root = paths (Some root)"

text \<open>
  The nodes that the program builds have one of two shapes: a leaf, made by \<open>make_heap\<close>
  with a symbol and no children, or a merged node, made by \<open>merge_nodes\<close> with
  \<open>char = None\<close> and two children.
\<close>

fun wf_node :: "'a HeapNode \<Rightarrow> bool" where
  "wf_node (HeapNode c f l r) =
     (case c of
        Some ch \<Rightarrow> l = None \<and> r = None
      | None \<Rightarrow> (case l of None \<Rightarrow> False | Some a \<Rightarrow> wf_node a)
                \<and> (case r of None \<Rightarrow> False | Some b \<Rightarrow> wf_node b))"

text \<open>
  \<open>heap_symbols\<close> is the multiset of the symbols of all the trees in a heap;
  \<open>leaf_nodes\<close> are the nodes that \<open>make_heap\<close> pushes for a frequency table, and
  \<open>huffman_tree\<close> is the heap that \<open>make_heap\<close> and \<open>merge_nodes\<close> leave when they start
  from an empty heap.
\<close>

definition heap_symbols :: "'a HeapNode list \<Rightarrow> 'a multiset" where
  "heap_symbols h = (\<Sum>n\<in>#mset h. mset (symbols n))"

definition leaf_nodes :: "('a \<times> int) list \<Rightarrow> 'a HeapNode list" where
  "leaf_nodes frequency = map (\<lambda>(key, f). HeapNode (Some key) f None None) frequency"

definition huffman_tree :: "('a \<times> int) list \<Rightarrow> pyerror + 'a HeapNode list" where
  "huffman_tree frequency = merge_nodes_loop (foldl heappush [] (leaf_nodes frequency))"

text \<open>
  \<open>trie_of\<close> turns a tree of heap nodes into the decode tree of the same shape;
  \<open>insert_all\<close> is the outer loop of \<open>build_decode_tree\<close> started from any tree.
\<close>

fun trie_of :: "'a HeapNode \<Rightarrow> 'a dnode" where
  "trie_of (HeapNode c f l r) = DNode c (map_option trie_of l) (map_option trie_of r)"

definition insert_all :: "'a dnode \<Rightarrow> ('a \<times> bits) list \<Rightarrow> 'a dnode" where
  "insert_all tree cs = foldl (\<lambda>tree (ch, code). insert_code tree code ch) tree cs"

text \<open>
  Printable ASCII bytes; the code points that are not high surrogates (U+D800 to
  U+DBFF), as are all characters of a text decoded from UTF-8 and of a file name that the
  operating system gives; and one member \<^verbatim>\<open>"key": count\<close> of the frequency object as
  \<open>dumps_frequency\<close> writes it.
\<close>

definition printable :: "nat list \<Rightarrow> bool" where
  "printable bs = list_all (\<lambda>b. 32 \<le> b \<and> b \<le> 126) bs"

definition no_high_surrogate :: "nat \<Rightarrow> bool" where
  "no_high_surrogate c = (c < 55296 \<or> (56320 \<le> c \<and> c < 1114112))"

definition dumps_item :: "pystr \<times> int \<Rightarrow> nat list" where
  "dumps_item kf = encode_basestring_ascii (fst kf) @ [58, 32] @ int_repr (snd kf)"

section \<open>Properties of binary numerals\<close>

lemma bits_val_snoc: "bits_val (s @ [b]) = 2 * bits_val s + bit_val b"
  by (simp add: bits_val_def)

lemma bit_val_bit_of: "n < 2 \<Longrightarrow> bit_val (bit_of n) = n"
  by (auto simp: bit_val_def bit_of_def)

lemma bit_of_bit_val: "bit_of (bit_val b) = b"
  by (cases b) (auto simp: bit_val_def bit_of_def)

lemma bit_val_less2: "bit_val b < 2"
  by (cases b) (auto simp: bit_val_def)

lemma bits_val_bin_digits: "bits_val (bin_digits n) = n"
proof (induction n rule: bin_digits.induct)
  case (1 n)
  show ?case
  proof (cases "n < 2")
    case True
    then show ?thesis
      by (subst bin_digits.simps) (simp add: bits_val_def bit_val_bit_of)
  next
    case False
    with 1 have "bits_val (bin_digits (n div 2)) = n div 2" by simp
    with False show ?thesis
      by (subst bin_digits.simps) (simp add: bits_val_snoc bit_val_bit_of)
  qed
qed

lemma bin_digits_nonempty: "bin_digits n \<noteq> []"
  by (subst bin_digits.simps) simp

lemma bits_val_replicate_B0: "bits_val (replicate k B0 @ s) = bits_val s"
proof (induction s rule: rev_induct)
  case Nil
  have "bits_val (replicate k B0) = 0"
  proof (induction k)
    case 0
    show ?case by (simp add: bits_val_def)
  next
    case (Suc k)
    have "replicate (Suc k) B0 = replicate k B0 @ [B0]"
      by (simp add: replicate_append_same)
    then show ?case using Suc by (simp only: bits_val_snoc) (simp add: bit_val_def)
  qed
  then show ?case by (simp add: bits_val_def)
next
  case (snoc b s)
  have "bits_val (replicate k B0 @ s @ [b]) = bits_val ((replicate k B0 @ s) @ [b])" by simp
  also have "\<dots> = 2 * bits_val (replicate k B0 @ s) + bit_val b" by (rule bits_val_snoc)
  finally show ?case using snoc by (simp add: bits_val_snoc)
qed

lemma bits_val_rjust0: "bits_val (rjust0 w s) = bits_val s"
  by (simp add: rjust0_def bits_val_replicate_B0)

lemma bits_val_zero: "bits_val s = 0 \<Longrightarrow> s = replicate (length s) B0"
proof (induction s rule: rev_induct)
  case Nil
  show ?case by simp
next
  case (snoc b s)
  from snoc.prems have "bits_val s = 0" and "bit_val b = 0"
    by (simp_all add: bits_val_snoc)
  with snoc.IH have "s = replicate (length s) B0" and "b = B0"
    by (auto simp: bit_val_def split: bit.splits)
  then show ?case
    by (metis length_append_singleton replicate_Suc replicate_append_same)
qed

lemma rjust0_bin_digits_bits_val:
  "s \<noteq> [] \<Longrightarrow> rjust0 (length s) (bin_digits (bits_val s)) = s"
proof (induction s rule: rev_induct)
  case Nil
  then show ?case by simp
next
  case (snoc b s)
  let ?n = "bits_val (s @ [b])"
  have n: "?n = 2 * bits_val s + bit_val b" by (rule bits_val_snoc)
  show ?case
  proof (cases "?n < 2")
    case True
    with n have z: "bits_val s = 0" and nb: "?n = bit_val b" by auto
    have "bin_digits ?n = [b]"
      using True nb by (subst bin_digits.simps) (simp add: bit_of_bit_val)
    moreover have "s = replicate (length s) B0" using z by (rule bits_val_zero)
    ultimately show ?thesis
      by (simp add: rjust0_def)
  next
    case False
    with n have s: "s \<noteq> []" by (auto simp: bits_val_def bit_val_def split: bit.splits)
    have d: "?n div 2 = bits_val s" and m: "?n mod 2 = bit_val b"
      using n bit_val_less2 [of b] by auto
    have "bin_digits ?n = bin_digits (bits_val s) @ [b]"
      using False by (subst bin_digits.simps) (simp only: d m bit_of_bit_val if_False)
    moreover have "rjust0 (length s) (bin_digits (bits_val s)) = s"
      using snoc.IH s by simp
    ultimately show ?thesis
      by (simp add: rjust0_def)
  qed
qed

lemma bits_val_bound: "bits_val s < 2 ^ length s"
proof (induction s rule: rev_induct)
  case Nil
  show ?case by (simp add: bits_val_def)
next
  case (snoc b s)
  then show ?case
    using bit_val_less2 [of b] by (simp add: bits_val_snoc)
qed

lemma length_bin_digits_le: "n < 2 ^ w \<Longrightarrow> 0 < w \<Longrightarrow> length (bin_digits n) \<le> w"
proof (induction n arbitrary: w rule: bin_digits.induct)
  case (1 n)
  show ?case
  proof (cases "n < 2")
    case True
    then show ?thesis using "1.prems" by (subst bin_digits.simps) simp
  next
    case False
    then obtain v where w: "w = Suc v" using "1.prems" by (cases w) auto
    with False "1.prems" have v: "0 < v" by (cases v) auto
    from "1.prems" w have "n div 2 < 2 ^ v" by auto
    with 1 False v have "length (bin_digits (n div 2)) \<le> v" by simp
    with False w show ?thesis by (subst bin_digits.simps) simp
  qed
qed

lemma length_format_08b: "n < 256 \<Longrightarrow> length (format_08b n) = 8"
proof -
  assume "n < 256"
  then have "length (bin_digits n) \<le> 8"
    using length_bin_digits_le [of n 8] by simp
  then show ?thesis by (simp add: format_08b_def rjust0_def)
qed

lemma rjust0_nonempty: "s \<noteq> [] \<Longrightarrow> rjust0 w s \<noteq> []"
  by (simp add: rjust0_def)

lemma int_base2_format_08b: "int_base2 (format_08b n) = Inr n"
  by (simp add: int_base2_def format_08b_def bits_val_rjust0 bits_val_bin_digits
      rjust0_nonempty bin_digits_nonempty)

section \<open>Properties of padding\<close>

lemma extra_padding_range: "1 \<le> extra_padding b \<and> extra_padding b \<le> 8"
  by (simp add: extra_padding_def)

lemma length_pad_encoded_text:
  "length (pad_encoded_text b) = 8 + length b + extra_padding b"
  using extra_padding_range [of b] by (simp add: pad_encoded_text_def length_format_08b)

lemma take_8_pad_encoded_text: "take 8 (pad_encoded_text b) = format_08b (extra_padding b)"
  using extra_padding_range [of b] by (simp add: pad_encoded_text_def length_format_08b)

lemma drop_8_pad_encoded_text:
  "drop 8 (pad_encoded_text b) = b @ replicate (extra_padding b) B0"
  using extra_padding_range [of b] by (simp add: pad_encoded_text_def length_format_08b)

text \<open>
  Claim C4. For every bit-string \<open>b\<close>, whatever its length modulo 8, removing the padding
  of the padded string gives \<open>b\<close> back; the padded string is the 8-bit count, then \<open>b\<close>, then
  the padding, and the number of padding bits is 8 minus the length modulo 8, which is
  between 1 and 8 and never 0: a bit-string whose length is a multiple of 8 receives 8
  padding bits.
\<close>

theorem padding_round_trip:
  "remove_padding (pad_encoded_text b) = Inr b
   \<and> pad_encoded_text b = format_08b (extra_padding b) @ b @ replicate (extra_padding b) B0
   \<and> length (pad_encoded_text b) = 8 + length b + extra_padding b
   \<and> 1 \<le> extra_padding b \<and> extra_padding b \<le> 8
   \<and> extra_padding b = 8 - length b mod 8"
proof -
  have r: "1 \<le> extra_padding b \<and> extra_padding b \<le> 8" by (rule extra_padding_range)
  have "slice_8_neg (pad_encoded_text b) (extra_padding b) = b"
    using r by (simp add: slice_8_neg_def drop_8_pad_encoded_text length_pad_encoded_text)
  then have "remove_padding (pad_encoded_text b) = Inr b"
    by (simp add: remove_padding_def take_8_pad_encoded_text int_base2_format_08b)
  moreover have "extra_padding b = 8 - length b mod 8"
    by (simp add: extra_padding_def)
  ultimately show ?thesis
    using r by (simp add: length_pad_encoded_text) (simp add: pad_encoded_text_def)
qed

section \<open>Byte packing of the padded text\<close>

lemma concat_chunks8: "concat (chunks8 s) = s"
proof (induction s rule: chunks8.induct)
  case (1 s)
  then show ?case by (subst chunks8.simps) auto
qed

lemma chunks8_aligned:
  "length s mod 8 = 0 \<Longrightarrow> list_all (\<lambda>c. length c = 8) (chunks8 s)"
proof (induction s rule: chunks8.induct)
  case (1 s)
  show ?case
  proof (cases "s = []")
    case True
    then show ?thesis by (subst chunks8.simps) simp
  next
    case False
    with "1.prems" have l: "8 \<le> length s" by (cases "length s < 8") auto
    then have "length (drop 8 s) mod 8 = 0" using "1.prems" by (simp add: le_mod_geq [symmetric])
    with 1 False have "list_all (\<lambda>c. length c = 8) (chunks8 (drop 8 s))" by simp
    with False l show ?thesis by (subst chunks8.simps) simp
  qed
qed

lemma length_chunks8:
  "length s mod 8 = 0 \<Longrightarrow> length (chunks8 s) = length s div 8"
proof (induction s rule: chunks8.induct)
  case (1 s)
  show ?case
  proof (cases "s = []")
    case True
    then show ?thesis by (subst chunks8.simps) simp
  next
    case False
    with "1.prems" have l: "8 \<le> length s" by (cases "length s < 8") auto
    then have "length (drop 8 s) mod 8 = 0" using "1.prems" by (simp add: le_mod_geq [symmetric])
    with 1 False have "length (chunks8 (drop 8 s)) = length (drop 8 s) div 8" by simp
    with False l show ?thesis by (subst chunks8.simps) (simp add: le_div_geq)
  qed
qed

lemma bytearray_ok: "list_all (\<lambda>n. n < 256) ns \<Longrightarrow> bytearray ns = Inr ns"
  by (induction ns) auto

lemma bits_val_chunk_bound: "length c = 8 \<Longrightarrow> bits_val c < 256"
  using bits_val_bound [of c] by simp

lemma get_byte_array_aligned:
  assumes "length s mod 8 = 0"
  shows "get_byte_array s = Inr (map bits_val (chunks8 s))"
proof -
  have "list_all (\<lambda>c. length c = 8) (chunks8 s)" using assms by (rule chunks8_aligned)
  then have "list_all (\<lambda>n. n < 256) (map bits_val (chunks8 s))"
    by (induction "chunks8 s") (auto simp: list_all_iff bits_val_chunk_bound)
  then show ?thesis by (simp add: get_byte_array_def bytearray_ok)
qed

lemma unpack_bytes_chunks:
  "list_all (\<lambda>c. length c = 8) cs \<Longrightarrow> unpack_bytes (map bits_val cs) = concat cs"
proof (induction cs)
  case Nil
  show ?case by (simp add: unpack_bytes_def)
next
  case (Cons c cs)
  then have l: "length c = 8" by simp
  then have "c \<noteq> []" by auto
  then have "rjust0 (length c) (bin_digits (bits_val c)) = c"
    by (rule rjust0_bin_digits_bits_val)
  then have "rjust0 8 (bin_digits (bits_val c)) = c"
    using l by simp
  with Cons show ?case by (simp add: unpack_bytes_def)
qed

lemma unpack_get_byte_array:
  "length s mod 8 = 0 \<Longrightarrow> unpack_bytes (map bits_val (chunks8 s)) = s"
  by (simp add: unpack_bytes_chunks chunks8_aligned concat_chunks8)

lemma length_pad_mod8: "length (pad_encoded_text b) mod 8 = 0"
proof -
  have "length (pad_encoded_text b) = 8 + (length b + (8 - length b mod 8))"
    by (simp add: length_pad_encoded_text extra_padding_def)
  also have "\<dots> mod 8 = 0" by presburger
  finally show ?thesis .
qed

text \<open>
  Claim C10. For every bit-string, the padded string has a length divisible by 8, so
  \<open>get_byte_array\<close> cuts it into groups of exactly 8 bits that together are the whole
  padded string, returns one byte per group, and unpacking those bytes 8 bits each gives
  the padded string back: no bit is left over.
\<close>

theorem padded_text_byte_aligned:
  "length (pad_encoded_text b) mod 8 = 0
   \<and> list_all (\<lambda>c. length c = 8) (chunks8 (pad_encoded_text b))
   \<and> concat (chunks8 (pad_encoded_text b)) = pad_encoded_text b
   \<and> get_byte_array (pad_encoded_text b) = Inr (map bits_val (chunks8 (pad_encoded_text b)))
   \<and> length (map bits_val (chunks8 (pad_encoded_text b))) = length (pad_encoded_text b) div 8
   \<and> unpack_bytes (map bits_val (chunks8 (pad_encoded_text b))) = pad_encoded_text b"
  using length_pad_mod8 [of b]
  by (simp add: chunks8_aligned concat_chunks8 get_byte_array_aligned length_chunks8
      unpack_get_byte_array)

section \<open>Properties of the heap and of tree construction\<close>

lemma mset_move_hole:
  assumes "i < length h" "j < length h" "i \<noteq> j"
  shows "mset (h[i := h ! j, j := x]) = mset (h[i := x])"
proof -
  have "mset (h[i := h ! j, j := x]) = add_mset x (mset (h[i := h ! j]) - {#h ! j#})"
    using assms by (simp add: mset_update)
  also have "mset (h[i := h ! j]) = add_mset (h ! j) (mset h - {#h ! i#})"
    using assms by (simp add: mset_update)
  finally show ?thesis using assms by (simp add: mset_update)
qed

lemma mset_siftdown_loop:
  "pos < length h \<Longrightarrow> mset (siftdown_loop h startpos pos newitem) = mset (h[pos := newitem])"
proof (induction h startpos pos newitem rule: siftdown_loop.induct)
  case (1 h startpos pos newitem)
  let ?pp = "(pos - 1) div 2"
  show ?case
  proof (cases "pos > startpos \<and> node_lt newitem (h ! ?pp)")
    case False
    then show ?thesis by (subst siftdown_loop.simps) auto
  next
    case True
    then have pp: "?pp < pos" by auto
    with "1.prems" have "?pp < length (h[pos := h ! ?pp])" by simp
    with "1.IH" True
    have "mset (siftdown_loop (h[pos := h ! ?pp]) startpos ?pp newitem)
            = mset (h[pos := h ! ?pp, ?pp := newitem])" by simp
    also have "\<dots> = mset (h[pos := newitem])"
      using pp "1.prems" by (intro mset_move_hole) auto
    finally show ?thesis using True by (subst siftdown_loop.simps) simp
  qed
qed

lemma mset_siftdown: "pos < length h \<Longrightarrow> mset (siftdown h startpos pos) = mset h"
  by (simp add: siftdown_def mset_siftdown_loop)

lemma smaller_child_bounds:
  "childpos < endpos \<Longrightarrow> childpos \<le> smaller_child h endpos childpos
     \<and> smaller_child h endpos childpos < endpos"
  by (simp add: smaller_child_def)

lemma mset_siftup_loop:
  "pos < length h \<Longrightarrow> siftup_loop h (length h) pos = (h', pos') \<Longrightarrow>
     length h' = length h \<and> pos' < length h \<and> mset (h'[pos' := x]) = mset (h[pos := x])"
proof (induction h "length h" pos arbitrary: h' pos' rule: siftup_loop.induct)
  case (1 h pos)
  let ?cp = "smaller_child h (length h) (2 * pos + 1)"
  show ?case
  proof (cases "2 * pos + 1 < length h")
    case False
    with "1.prems" show ?thesis by (subst (asm) siftup_loop.simps) auto
  next
    case True
    then have cp: "2 * pos + 1 \<le> ?cp" "?cp < length h"
      using smaller_child_bounds [of "2 * pos + 1" "length h" h] by auto
    let ?h1 = "h[pos := h ! ?cp]"
    have run: "siftup_loop ?h1 (length ?h1) ?cp = (h', pos')"
      using "1.prems"(2) True by (subst (asm) siftup_loop.simps) simp
    have "length h' = length ?h1 \<and> pos' < length ?h1 \<and> mset (h'[pos' := x]) = mset (?h1[?cp := x])"
      using cp True run by (intro "1.hyps") auto
    moreover have "mset (?h1[?cp := x]) = mset (h[pos := x])"
      using cp "1.prems"(1) by (intro mset_move_hole) auto
    ultimately show ?thesis by simp
  qed
qed

lemma mset_siftup: "pos < length h \<Longrightarrow> mset (siftup h pos) = mset h"
proof -
  assume pos: "pos < length h"
  obtain h' pos' where run: "siftup_loop h (length h) pos = (h', pos')"
    by (cases "siftup_loop h (length h) pos")
  from mset_siftup_loop [OF pos run, of "h ! pos"]
  have "length h' = length h" "pos' < length h" "mset (h'[pos' := h ! pos]) = mset h"
    by simp_all
  then show ?thesis using run by (simp add: siftup_def mset_siftdown)
qed

lemma mset_heappush: "mset (heappush h item) = add_mset item (mset h)"
  by (simp add: heappush_def mset_siftdown)

lemma mset_heappop: "heappop h = Inr (item, h') \<Longrightarrow> mset h = add_mset item (mset h')"
proof (cases h rule: rev_cases)
  case Nil
  assume "heappop h = Inr (item, h')"
  with Nil show ?thesis by (simp add: heappop_def)
next
  case (snoc h1 lastelt)
  assume pop: "heappop h = Inr (item, h')"
  show ?thesis
  proof (cases "h1 = []")
    case True
    with snoc pop show ?thesis by (simp add: heappop_def)
  next
    case False
    then have l: "0 < length h1" by simp
    from False snoc pop have item: "item = h1 ! 0" and h': "h' = siftup (h1[0 := lastelt]) 0"
      by (simp_all add: heappop_def)
    have "mset h' = mset (h1[0 := lastelt])" using l by (simp add: h' mset_siftup)
    also have "\<dots> = add_mset lastelt (mset h1 - {#h1 ! 0#})" using l by (simp add: mset_update)
    finally show ?thesis using snoc item l by simp
  qed
qed

lemma heap_symbols_mset: "mset h = mset h' \<Longrightarrow> heap_symbols h = heap_symbols h'"
  by (simp add: heap_symbols_def)

lemma heap_symbols_add:
  "mset h = add_mset n (mset h') \<Longrightarrow> heap_symbols h = mset (symbols n) + heap_symbols h'"
  by (simp add: heap_symbols_def)

lemma make_heap_foldl:
  "make_heap self frequency =
     self\<lparr>heap := foldl heappush (heap self) (leaf_nodes frequency)\<rparr>"
proof (induction frequency arbitrary: self)
  case Nil
  show ?case by (simp add: make_heap_def leaf_nodes_def)
next
  case (Cons kf frequency)
  obtain k f where kf: "kf = (k, f)" by (cases kf)
  have "make_heap self (kf # frequency)
          = make_heap (self\<lparr>heap := heappush (heap self) (HeapNode (Some k) f None None)\<rparr>) frequency"
    by (simp add: make_heap_def kf)
  then show ?case by (simp add: Cons.IH leaf_nodes_def kf)
qed

lemma mset_foldl_heappush: "mset (foldl heappush h ns) = mset h + mset ns"
  by (induction ns arbitrary: h) (simp_all add: mset_heappush)

lemma length_foldl_heappush: "length (foldl heappush h ns) = length h + length ns"
  by (induction ns arbitrary: h) simp_all

lemma heappop_nonempty: "h \<noteq> [] \<Longrightarrow> \<exists>item h'. heappop h = Inr (item, h')"
  by (simp add: heappop_def)

lemma symbols_merged:
  "symbols (HeapNode None f (Some a) (Some b)) = symbols a @ symbols b"
  by (simp add: symbols_def comp_def case_prod_unfold)

lemma merge_nodes_loop_inv:
  "\<exists>h'. merge_nodes_loop h = Inr h' \<and> length h' = min 1 (length h)
        \<and> heap_symbols h' = heap_symbols h
        \<and> (list_all wf_node h \<longrightarrow> list_all wf_node h')"
proof (induction h rule: merge_nodes_loop.induct)
  case (1 h)
  show ?case
  proof (cases "length h > 1")
    case False
    then show ?thesis by (subst merge_nodes_loop.simps) auto
  next
    case True
    then have "h \<noteq> []" by auto
    then obtain node1 h1 where p1: "heappop h = Inr (node1, h1)"
      using heappop_nonempty by blast
    then have l1: "length h = Suc (length h1)" by (rule length_heappop)
    with True have "h1 \<noteq> []" by auto
    then obtain node2 h2 where p2: "heappop h1 = Inr (node2, h2)"
      using heappop_nonempty by blast
    then have l2: "length h1 = Suc (length h2)" by (rule length_heappop)
    let ?m = "HeapNode None (freq node1 + freq node2) (Some node1) (Some node2)"
    let ?h3 = "heappush h2 ?m"
    from "1.IH" [OF True p1 refl p2 refl]
    obtain h' where r: "merge_nodes_loop ?h3 = Inr h'" and len: "length h' = min 1 (length ?h3)"
      and syms: "heap_symbols h' = heap_symbols ?h3"
      and wf: "list_all wf_node ?h3 \<longrightarrow> list_all wf_node h'"
      by blast
    have m1: "mset h = add_mset node1 (mset h1)" using p1 by (rule mset_heappop)
    have m2: "mset h1 = add_mset node2 (mset h2)" using p2 by (rule mset_heappop)
    have m3: "mset ?h3 = add_mset ?m (mset h2)" by (rule mset_heappush)
    have eq: "merge_nodes_loop h = Inr h'"
      using True p1 p2 r by (subst merge_nodes_loop.simps) simp
    have "heap_symbols ?h3 = heap_symbols h"
      by (simp add: heap_symbols_add [OF m1] heap_symbols_add [OF m2] heap_symbols_add [OF m3]
          symbols_merged)
    moreover have "list_all wf_node h \<longrightarrow> list_all wf_node ?h3"
    proof
      assume "list_all wf_node h"
      then have "\<forall>n\<in>#mset h. wf_node n" by (simp add: list_all_iff)
      then have "wf_node node1" "wf_node node2" "\<forall>n\<in>#mset h2. wf_node n"
        by (simp_all add: m1 m2)
      then have "\<forall>n\<in>#mset ?h3. wf_node n" by (simp add: m3)
      then show "list_all wf_node ?h3" by (simp add: list_all_iff)
    qed
    ultimately show ?thesis using eq len syms wf l1 l2 by auto
  qed
qed

lemma map_of_dict_set: "map_of (dict_set d k v) = (map_of d)(k \<mapsto> v)"
  by (induction d k v rule: dict_set.induct) auto

lemma keys_dict_set:
  "map fst (dict_set d k v) = (if k \<in> set (map fst d) then map fst d else map fst d @ [k])"
  by (induction d k v rule: dict_set.induct) auto

lemma dict_set_fresh: "k \<notin> set (map fst d) \<Longrightarrow> dict_set d k v = d @ [(k, v)]"
  by (induction d k v rule: dict_set.induct) auto

lemma distinct_dict_set: "distinct (map fst d) \<Longrightarrow> distinct (map fst (dict_set d k v))"
  by (simp add: keys_dict_set)

lemma heap_symbols_leaf_nodes: "heap_symbols (leaf_nodes frequency) = mset (map fst frequency)"
  by (induction frequency) (auto simp: heap_symbols_def leaf_nodes_def symbols_def)

lemma wf_leaf_nodes: "list_all wf_node (leaf_nodes frequency)"
  by (induction frequency) (auto simp: leaf_nodes_def)

lemma huffman_tree_empty: "huffman_tree [] = Inr []"
  by (simp add: huffman_tree_def leaf_nodes_def merge_nodes_loop.simps)

lemma huffman_tree_root:
  assumes "frequency \<noteq> []"
  shows "\<exists>root. huffman_tree frequency = Inr [root] \<and> wf_node root
           \<and> mset (symbols root) = mset (map fst frequency)"
proof -
  let ?h = "foldl heappush [] (leaf_nodes frequency)"
  have m: "mset ?h = mset (leaf_nodes frequency)" by (simp add: mset_foldl_heappush)
  have len: "length ?h = length frequency"
    by (simp add: length_foldl_heappush leaf_nodes_def)
  have "set ?h = set (leaf_nodes frequency)" using m by (rule mset_eq_setD)
  then have wf: "list_all wf_node ?h"
    using wf_leaf_nodes [of frequency] by (simp add: list_all_iff)
  have syms: "heap_symbols ?h = mset (map fst frequency)"
    using heap_symbols_mset [OF m] by (simp add: heap_symbols_leaf_nodes)
  from merge_nodes_loop_inv [of ?h] obtain h' where
    r: "merge_nodes_loop ?h = Inr h'" and l: "length h' = min 1 (length ?h)"
    and s: "heap_symbols h' = heap_symbols ?h" and w: "list_all wf_node h'"
    using wf by blast
  from l len assms have "length h' = 1" by (cases frequency) auto
  then obtain root where h': "h' = [root]" by (cases h') auto
  with r s w syms show ?thesis by (simp add: huffman_tree_def heap_symbols_def)
qed

lemma build_empty: "heap self = [] \<Longrightarrow> build self [] = (self, Inl IndexError)"
  by (simp add: build_def make_heap_def merge_nodes_def merge_nodes_loop.simps make_codes_def
      heappop_def)

lemma build_tree:
  assumes "heap self = []" and "huffman_tree frequency = Inr [root]"
  shows "build self frequency
           = (\<lparr>heap = [], codes = make_codes_helper (Some root) [] (codes self)\<rparr>, Inr ())"
  using assms
  by (simp add: build_def make_heap_foldl merge_nodes_def huffman_tree_def make_codes_def
      heappop_def)

lemma make_codes_helper_foldl:
  "make_codes_helper t cur cs = foldl (\<lambda>d (x, p). dict_set d x (cur @ p)) cs (paths t)"
proof (induction t cur cs rule: make_codes_helper.induct)
  case (1 cur cs)
  show ?case by simp
next
  case (2 c f l r cur cs)
  show ?case
  proof (cases c)
    case (Some ch)
    then show ?thesis by simp
  next
    case None
    with 2 show ?thesis
      by (simp add: foldl_map case_prod_unfold)
  qed
qed

lemma foldl_dict_set_fresh:
  "distinct (map fst ps) \<Longrightarrow> set (map fst ps) \<inter> set (map fst cs) = {} \<Longrightarrow>
     foldl (\<lambda>d (x, p). dict_set d x (cur @ p)) cs ps = cs @ map (\<lambda>(x, p). (x, cur @ p)) ps"
proof (induction ps arbitrary: cs)
  case Nil
  show ?case by simp
next
  case (Cons xp ps)
  obtain x p where xp: "xp = (x, p)" by (cases xp)
  from Cons.prems xp have fresh: "x \<notin> set (map fst cs)" by auto
  have "foldl (\<lambda>d (x, p). dict_set d x (cur @ p)) (cs @ [(x, cur @ p)]) ps
          = (cs @ [(x, cur @ p)]) @ map (\<lambda>(x, p). (x, cur @ p)) ps"
    using Cons.prems xp by (intro Cons.IH) auto
  then show ?case using fresh by (simp add: xp dict_set_fresh)
qed

lemma map_of_foldl_dict_set:
  "distinct (map fst ps) \<Longrightarrow>
     map_of (foldl (\<lambda>d (x, p). dict_set d x (cur @ p)) cs ps)
       = map_of cs ++ map_of (map (\<lambda>(x, p). (x, cur @ p)) ps)"
proof (induction ps arbitrary: cs)
  case Nil
  show ?case by simp
next
  case (Cons xp ps)
  obtain x p where xp: "xp = (x, p)" by (cases xp)
  from Cons.prems xp have nx: "x \<notin> fst ` set ps" and d: "distinct (map fst ps)" by auto
  have "x \<notin> dom (map_of (map (\<lambda>(x, p). (x, cur @ p)) ps))"
    using nx by (auto simp: dom_map_of_conv_image_fst image_iff)
  then have n: "map_of (map (\<lambda>(x, p). (x, cur @ p)) ps) x = None" by blast
  show ?case
    using Cons.IH [OF d, of "dict_set cs x (cur @ p)"]
    by (auto simp: xp map_of_dict_set map_add_def n fun_eq_iff split: option.splits)
qed

lemma code_table_lookup:
  assumes "distinct (symbols root)"
  shows "map_of (make_codes_helper (Some root) [] cs) = map_of cs ++ map_of (code_table root)"
proof -
  have "map (\<lambda>(x, p). (x, [] @ p)) (paths (Some root)) = paths (Some root)"
    by (induction "paths (Some root)") (auto simp: case_prod_unfold)
  then show ?thesis
    using map_of_foldl_dict_set [of "paths (Some root)" "[]" cs] assms
    by (simp add: make_codes_helper_foldl symbols_def code_table_def)
qed

lemma code_table_fresh:
  assumes "distinct (symbols root)"
  shows "make_codes_helper (Some root) [] [] = code_table root"
proof -
  have "map (\<lambda>(x, p). (x, [] @ p)) (paths (Some root)) = paths (Some root)"
    by (induction "paths (Some root)") (auto simp: case_prod_unfold)
  then show ?thesis
    using foldl_dict_set_fresh [of "paths (Some root)" "[]" "[]"] assms
    by (simp add: make_codes_helper_foldl symbols_def code_table_def)
qed

lemma paths_prefix:
  "(x, p) \<in> set (paths t) \<Longrightarrow> (y, q) \<in> set (paths t) \<Longrightarrow> prefix p q \<Longrightarrow> p = q \<and> x = y"
proof (induction t arbitrary: p q rule: paths.induct)
  case 1
  then show ?case by simp
next
  case (2 c f l r)
  show ?case
  proof (cases c)
    case (Some ch)
    with "2.prems" show ?thesis by simp
  next
    case None
    from "2.prems"(1) None consider
      p' where "p = B0 # p'" "(x, p') \<in> set (paths l)" | p' where "p = B1 # p'" "(x, p') \<in> set (paths r)"
      by auto
    then show ?thesis
    proof cases
      case 1
      with "2.prems"(3) obtain q' where q: "q = B0 # q'" "prefix p' q'"
        by (cases q) auto
      with "2.prems"(2) None have "(y, q') \<in> set (paths l)" by auto
      with "2.IH"(1) [OF None 1(2) _ q(2)] 1 q show ?thesis by simp
    next
      case 2
      with "2.prems"(3) obtain q' where q: "q = B1 # q'" "prefix p' q'"
        by (cases q) auto
      with "2.prems"(2) None have "(y, q') \<in> set (paths r)" by auto
      with "2.IH"(2) [OF None 2(2) _ q(2)] 2 q show ?thesis by simp
    qed
  qed
qed

section \<open>The code table\<close>

text \<open>
  Claim C2 says that a frequency table with exactly one entry, as for the input
  \<^verbatim>\<open>"aaaa"\<close>, gives its symbol a non-empty, 1-bit code. The code does not: the heap
  holds one leaf, \<open>merge_nodes\<close> does nothing, and \<open>make_codes_helper\<close> stores the
  current code of the root, which is the empty string. The theorem evaluates the three
  calls on any one-entry table, and the frequency table of \<^verbatim>\<open>"aaaa"\<close>.
\<close>

theorem single_symbol_code_is_empty:
  "build init [(key, f)] = (\<lparr>heap = [], codes = [(key, [])]\<rparr>, Inr ())
   \<and> make_frequency_dict (characters (ascii ''aaaa'')) = [([97], 4)]"
proof -
  have "build init [(key, f)] = (\<lparr>heap = [], codes = [(key, [])]\<rparr>, Inr ())"
    by (simp add: build_def make_heap_def init_def heappush_def siftdown_def
        siftdown_loop.simps merge_nodes_def merge_nodes_loop.simps make_codes_def heappop_def)
  moreover have "make_frequency_dict (characters (ascii ''aaaa'')) = [([97], 4)]"
    by code_simp
  ultimately show ?thesis by simp
qed

text \<open>
  Claim C3, as amended. Claim C3 says that encoding an empty symbol sequence fails with
  \<open>EmptyInputError\<close>. The program has no such exception: on an object whose heap is empty,
  \<^verbatim>\<open>compress\<close> of the empty text fails with Python's \<open>IndexError\<close>, raised by
  \<^verbatim>\<open>heappop\<close> on the empty heap in \<^verbatim>\<open>make_codes\<close>, before anything is written to the
  output file, and it leaves the object as it was.
\<close>

theorem empty_input_raises_IndexError:
  "heap self = [] \<Longrightarrow> compress self [] ext = (self, Inl IndexError)"
  by (simp add: compress_def characters_def make_frequency_dict_def build_empty)

theorem empty_input_raises_IndexError_witness:
  "heap (init :: pystr HuffmanCoding) = []
   \<and> compress init [] (ascii ''.txt'') = (init, Inl IndexError)"
proof -
  have h: "heap (init :: pystr HuffmanCoding) = []" by (simp add: init_def)
  from empty_input_raises_IndexError [OF h] show ?thesis using h by simp
qed

text \<open>
  The counterexample to claim C3 as stated: on a new object, the empty text raises
  \<open>IndexError\<close>, not \<open>EmptyInputError\<close>.
\<close>

theorem empty_input_not_EmptyInputError:
  "snd (compress init [] (ascii ''.txt'')) = Inl IndexError
   \<and> snd (compress init [] (ascii ''.txt'')) \<noteq> Inl EmptyInputError"
  by code_simp

text \<open>
  Claim C6, as amended. The three calls on an object whose heap is empty give the symbols
  of the frequency table prefix-free codes: they return, and for all distinct symbols \<open>x\<close>
  and \<open>y\<close> of the frequency table (its keys are distinct, as the keys of a dictionary are)
  neither code is a prefix of the other, whatever codes the object held before. On a new
  object the code table has exactly the symbols of the frequency table, so that for all
  distinct symbols of the code table the code of one is not a prefix of the code of the
  other.
\<close>

theorem code_table_prefix_free:
  assumes "heap self = []" and "distinct (map fst frequency)"
    and "x \<in> set (map fst frequency)" and "y \<in> set (map fst frequency)" and "x \<noteq> y"
  shows "snd (build self frequency) = Inr ()
         \<and> (\<exists>cx cy. map_of (codes (fst (build self frequency))) x = Some cx
                \<and> map_of (codes (fst (build self frequency))) y = Some cy
                \<and> \<not> prefix cx cy \<and> \<not> prefix cy cx)
         \<and> snd (build init frequency) = Inr ()
         \<and> mset (map fst (codes (fst (build init frequency)))) = mset (map fst frequency)
         \<and> (\<forall>u cu v cv. (u, cu) \<in> set (codes (fst (build init frequency)))
               \<and> (v, cv) \<in> set (codes (fst (build init frequency))) \<and> u \<noteq> v
               \<longrightarrow> \<not> prefix cu cv)"
proof -
  have ne: "frequency \<noteq> []" using assms(3) by auto
  from huffman_tree_root [OF ne] obtain root where
    t: "huffman_tree frequency = Inr [root]" and
    s: "mset (symbols root) = mset (map fst frequency)"
    by blast
  have d: "distinct (symbols root)"
    using assms(2) s by (metis mset_eq_imp_distinct_iff)
  have free: "\<not> prefix cu cv"
    if "(u, cu) \<in> set (code_table root)" "(v, cv) \<in> set (code_table root)" "u \<noteq> v"
    for u cu v cv
    using paths_prefix [of u cu "Some root" v cv] that by (auto simp: code_table_def)
  have b: "build self frequency
             = (\<lparr>heap = [], codes = make_codes_helper (Some root) [] (codes self)\<rparr>, Inr ())"
    using assms(1) t by (rule build_tree)
  have dom: "dom (map_of (code_table root)) = set (symbols root)"
    by (simp add: code_table_def symbols_def dom_map_of_conv_image_fst)
  have "x \<in> set (symbols root)" "y \<in> set (symbols root)"
    using assms(3,4) s by (metis mset_eq_setD)+
  then obtain cx cy where cx: "map_of (code_table root) x = Some cx"
    and cy: "map_of (code_table root) y = Some cy"
    using dom by blast
  then have "(x, cx) \<in> set (code_table root)" "(y, cy) \<in> set (code_table root)"
    by (simp_all add: map_of_SomeD)
  then have "\<not> prefix cx cy" "\<not> prefix cy cx"
    using free assms(5) by blast+
  moreover have "map_of (codes (fst (build self frequency))) x = Some cx"
    "map_of (codes (fst (build self frequency))) y = Some cy"
    using cx cy by (simp_all add: b code_table_lookup [OF d] map_add_def)
  moreover have bi: "build init frequency = (\<lparr>heap = [], codes = code_table root\<rparr>, Inr ())"
    using build_tree [of init frequency root] t d by (simp add: init_def code_table_fresh)
  ultimately show ?thesis
    using b s free by (auto simp: code_table_def symbols_def)
qed

theorem code_table_prefix_free_witness:
  "heap \<lparr>heap = [], codes = [(CHR ''a'', [B0]), (CHR ''b'', [B1])]\<rparr> = []
   \<and> distinct (map fst [(CHR ''x'', 1), (CHR ''y'', 1), (CHR ''z'', 2 :: int)])
   \<and> CHR ''x'' \<in> set (map fst [(CHR ''x'', 1), (CHR ''y'', 1), (CHR ''z'', 2 :: int)])
   \<and> CHR ''z'' \<in> set (map fst [(CHR ''x'', 1), (CHR ''y'', 1), (CHR ''z'', 2 :: int)])
   \<and> CHR ''x'' \<noteq> CHR ''z''
   \<and> map_of (codes (fst (build \<lparr>heap = [], codes = [(CHR ''a'', [B0]), (CHR ''b'', [B1])]\<rparr>
                              [(CHR ''x'', 1), (CHR ''y'', 1), (CHR ''z'', 2)]))) CHR ''x''
       = Some [B1, B0]
   \<and> map_of (codes (fst (build \<lparr>heap = [], codes = [(CHR ''a'', [B0]), (CHR ''b'', [B1])]\<rparr>
                              [(CHR ''x'', 1), (CHR ''y'', 1), (CHR ''z'', 2)]))) CHR ''z''
       = Some [B0]
   \<and> \<not> prefix [B1, B0] [B0] \<and> \<not> prefix [B0] [B1, B0]"
proof -
  let ?s = "\<lparr>heap = [], codes = [(CHR ''a'', [B0]), (CHR ''b'', [B1])]\<rparr>"
  let ?fr = "[(CHR ''x'', 1), (CHR ''y'', 1), (CHR ''z'', 2 :: int)]"
  have 1: "heap ?s = []" by simp
  have 2: "distinct (map fst ?fr)" by simp
  have 3: "CHR ''x'' \<in> set (map fst ?fr)" by simp
  have 4: "CHR ''z'' \<in> set (map fst ?fr)" by simp
  have 5: "CHR ''x'' \<noteq> CHR ''z''" by simp
  have cx: "map_of (codes (fst (build ?s ?fr))) CHR ''x'' = Some [B1, B0]" by code_simp
  have cz: "map_of (codes (fst (build ?s ?fr))) CHR ''z'' = Some [B0]" by code_simp
  from code_table_prefix_free [OF 1 2 3 4 5] cx cz
  have "\<not> prefix [B1, B0] [B0]" "\<not> prefix [B0] [B1, B0]" by auto
  with 1 2 3 4 5 cx cz show ?thesis by blast
qed

text \<open>
  The counterexample to claim C6 as stated: \<open>make_codes_helper\<close> adds to a dictionary
  \<open>self.codes\<close> that is never cleared. An object that has built the codes of the table
  \<^verbatim>\<open>{'a': 1, 'b': 1}\<close> and then builds those of \<^verbatim>\<open>{'x': 1, 'y': 1, 'z': 2}\<close> holds
  the code table \<^verbatim>\<open>{'a': '0', 'b': '1', 'z': '0', 'x': '10', 'y': '11'}\<close>, in which the
  code of \<^verbatim>\<open>'b'\<close> is a prefix of the code of \<^verbatim>\<open>'x'\<close>.
\<close>

theorem reused_code_table_not_prefix_free:
  "fst (build init [(CHR ''a'', 1), (CHR ''b'', 1)])
     = \<lparr>heap = [], codes = [(CHR ''a'', [B0]), (CHR ''b'', [B1])]\<rparr>
   \<and> codes (fst (build \<lparr>heap = [], codes = [(CHR ''a'', [B0]), (CHR ''b'', [B1])]\<rparr>
                       [(CHR ''x'', 1), (CHR ''y'', 1), (CHR ''z'', 2)]))
     = [(CHR ''a'', [B0]), (CHR ''b'', [B1]), (CHR ''z'', [B0]),
        (CHR ''x'', [B1, B0]), (CHR ''y'', [B1, B1])]
   \<and> CHR ''b'' \<noteq> CHR ''x'' \<and> prefix [B1] [B1, B0]"
proof -
  have "fst (build init [(CHR ''a'', 1), (CHR ''b'', 1)])
     = \<lparr>heap = [], codes = [(CHR ''a'', [B0]), (CHR ''b'', [B1])]\<rparr>" by code_simp
  moreover have "codes (fst (build \<lparr>heap = [], codes = [(CHR ''a'', [B0]), (CHR ''b'', [B1])]\<rparr>
                       [(CHR ''x'', 1), (CHR ''y'', 1), (CHR ''z'', 2)]))
     = [(CHR ''a'', [B0]), (CHR ''b'', [B1]), (CHR ''z'', [B0]),
        (CHR ''x'', [B1, B0]), (CHR ''y'', [B1, B1])]" by code_simp
  ultimately show ?thesis by simp
qed

section \<open>Decoding\<close>

lemma build_decode_tree_insert_all: "build_decode_tree cs = insert_all empty_dict cs"
  by (simp add: build_decode_tree_def insert_all_def)

lemma insert_all_append: "insert_all tree (cs @ ds) = insert_all (insert_all tree cs) ds"
  by (simp add: insert_all_def)

lemma insert_all_Nil: "insert_all tree [] = tree"
  by (simp add: insert_all_def)

lemma insert_all_Cons:
  "insert_all tree ((ch, code) # cs) = insert_all (insert_code tree code ch) cs"
  by (simp add: insert_all_def)

lemma insert_all_B0:
  "ps \<noteq> [] \<Longrightarrow> insert_all (DNode c n0 n1) (map (\<lambda>(x, p). (x, B0 # p)) ps)
     = DNode c (Some (insert_all (setdefault n0) ps)) n1"
proof (induction ps arbitrary: n0)
  case Nil
  then show ?case by simp
next
  case (Cons xp ps)
  obtain x p where xp: "xp = (x, p)" by (cases xp)
  show ?case
  proof (cases "ps = []")
    case True
    then show ?thesis by (simp add: xp insert_all_Cons insert_all_Nil)
  next
    case False
    from Cons.IH [OF False, of "Some (insert_code (setdefault n0) p x)"]
    show ?thesis by (simp add: xp insert_all_Cons setdefault_def)
  qed
qed

lemma insert_all_B1:
  "ps \<noteq> [] \<Longrightarrow> insert_all (DNode c n0 n1) (map (\<lambda>(x, p). (x, B1 # p)) ps)
     = DNode c n0 (Some (insert_all (setdefault n1) ps))"
proof (induction ps arbitrary: n1)
  case Nil
  then show ?case by simp
next
  case (Cons xp ps)
  obtain x p where xp: "xp = (x, p)" by (cases xp)
  show ?case
  proof (cases "ps = []")
    case True
    then show ?thesis by (simp add: xp insert_all_Cons insert_all_Nil)
  next
    case False
    from Cons.IH [OF False, of "Some (insert_code (setdefault n1) p x)"]
    show ?thesis by (simp add: xp insert_all_Cons setdefault_def)
  qed
qed

lemma paths_nonempty: "wf_node t \<Longrightarrow> paths (Some t) \<noteq> []"
  by (induction t rule: wf_node.induct) (auto split: option.splits)

lemma insert_all_paths: "wf_node t \<Longrightarrow> insert_all empty_dict (paths (Some t)) = trie_of t"
proof (induction t rule: wf_node.induct)
  case (1 c f l r)
  show ?case
  proof (cases c)
    case (Some ch)
    with "1.prems" show ?thesis
      by (simp add: insert_all_Cons insert_all_Nil empty_dict_def)
  next
    case None
    with "1.prems" obtain a b where l: "l = Some a" and r: "r = Some b"
      and wa: "wf_node a" and wb: "wf_node b"
      by (auto split: option.splits)
    have ia: "insert_all empty_dict (paths (Some a)) = trie_of a"
      using "1.IH"(1) [OF None l wa] .
    have ib: "insert_all empty_dict (paths (Some b)) = trie_of b"
      using "1.IH"(2) [OF None r wb] .
    have "insert_all empty_dict (paths (Some (HeapNode c f l r)))
            = insert_all (insert_all (DNode None None None) (map (\<lambda>(x, p). (x, B0 # p)) (paths (Some a))))
                (map (\<lambda>(x, p). (x, B1 # p)) (paths (Some b)))"
      by (simp add: None l r insert_all_append empty_dict_def)
    also have "\<dots> = DNode None (Some (trie_of a)) (Some (trie_of b))"
      using paths_nonempty [OF wa] paths_nonempty [OF wb] ia ib
      by (simp add: insert_all_B0 insert_all_B1 setdefault_def)
    finally show ?thesis by (simp add: None l r)
  qed
qed

text \<open>Walking one codeword from an inner node of the decode tree.\<close>

lemma decode_loop_codeword:
  "wf_node s \<Longrightarrow> char s = None \<Longrightarrow> (x, p) \<in> set (paths (Some s)) \<Longrightarrow>
     decode_loop tree (trie_of s) (p @ rest) acc = decode_loop tree tree rest (acc @ [x])"
proof (induction s arbitrary: p rule: wf_node.induct)
  case (1 c f l r)
  from "1.prems" have c: "c = None" by simp
  with "1.prems" obtain a b where l: "l = Some a" and r: "r = Some b"
    and wa: "wf_node a" and wb: "wf_node b"
    by (auto split: option.splits)
  from "1.prems"(3) c l r consider
    p' where "p = B0 # p'" "(x, p') \<in> set (paths (Some a))"
    | p' where "p = B1 # p'" "(x, p') \<in> set (paths (Some b))"
    by auto
  then show ?case
  proof cases
    case 1
    show ?thesis
    proof (cases "char a")
      case None
      from "1.IH"(1) [OF c l wa None 1(2)] show ?thesis
        using None by (cases a) (simp add: 1 c l r subscript_def)
    next
      case (Some ch)
      with wa 1(2) have "p' = []" "x = ch" by (cases a; simp)+
      then show ?thesis using Some by (cases a) (simp add: 1 c l r subscript_def)
    qed
  next
    case 2
    show ?thesis
    proof (cases "char b")
      case None
      from "1.IH"(2) [OF c r wb None 2(2)] show ?thesis
        using None by (cases b) (simp add: 2 c l r subscript_def)
    next
      case (Some ch)
      with wb 2(2) have "p' = []" "x = ch" by (cases b; simp)+
      then show ?thesis using Some by (cases b) (simp add: 2 c l r subscript_def)
    qed
  qed
qed

text \<open>Walking a proper prefix of a codeword ends inside the tree, with nothing emitted.\<close>

lemma decode_loop_partial:
  "wf_node s \<Longrightarrow> char s = None \<Longrightarrow> (x, p) \<in> set (paths (Some s)) \<Longrightarrow> strict_prefix q p \<Longrightarrow>
     decode_loop tree (trie_of s) q acc = Inr acc"
proof (induction s arbitrary: p q rule: wf_node.induct)
  case (1 c f l r)
  from "1.prems" have c: "c = None" by simp
  with "1.prems" obtain a b where l: "l = Some a" and r: "r = Some b"
    and wa: "wf_node a" and wb: "wf_node b"
    by (auto split: option.splits)
  show ?case
  proof (cases q)
    case Nil
    then show ?thesis by simp
  next
    case (Cons bq q')
    from "1.prems"(3) c l r consider
      p' where "p = B0 # p'" "(x, p') \<in> set (paths (Some a))"
      | p' where "p = B1 # p'" "(x, p') \<in> set (paths (Some b))"
      by auto
    then show ?thesis
    proof cases
      case 1
      with "1.prems"(4) Cons have bq: "bq = B0" and sp: "strict_prefix q' p'" by auto
      have na: "char a = None"
      proof (cases "char a")
        case (Some ch)
        with wa 1(2) have "p' = []" by (cases a) simp
        with sp show ?thesis by simp
      qed
      from "1.IH"(1) [OF c l wa na 1(2) sp] show ?thesis
        using na by (cases a) (simp add: Cons bq c l r subscript_def)
    next
      case 2
      with "1.prems"(4) Cons have bq: "bq = B1" and sp: "strict_prefix q' p'" by auto
      have nb: "char b = None"
      proof (cases "char b")
        case (Some ch)
        with wb 2(2) have "p' = []" by (cases b) simp
        with sp show ?thesis by simp
      qed
      from "1.IH"(2) [OF c r wb nb 2(2) sp] show ?thesis
        using nb by (cases b) (simp add: Cons bq c l r subscript_def)
    qed
  qed
qed

lemma build_init:
  assumes "distinct (map fst frequency)" and "frequency \<noteq> []"
  shows "\<exists>root. wf_node root \<and> mset (symbols root) = mset (map fst frequency)
           \<and> huffman_tree frequency = Inr [root]
           \<and> build init frequency = (\<lparr>heap = [], codes = code_table root\<rparr>, Inr ())"
proof -
  from huffman_tree_root [OF assms(2)] obtain root where
    t: "huffman_tree frequency = Inr [root]" and w: "wf_node root" and
    s: "mset (symbols root) = mset (map fst frequency)"
    by blast
  have d: "distinct (symbols root)"
    using assms(1) s by (metis mset_eq_imp_distinct_iff)
  have "build init frequency = (\<lparr>heap = [], codes = code_table root\<rparr>, Inr ())"
    using build_tree [of init frequency root] t d by (simp add: init_def code_table_fresh)
  with t w s show ?thesis by blast
qed

lemma leaf_symbols: "wf_node t \<Longrightarrow> char t = Some ch \<Longrightarrow> paths (Some t) = [(ch, [])]"
  by (cases t) simp

lemma map_of_paths:
  "distinct (map fst (paths t)) \<Longrightarrow> (x, p) \<in> set (paths t) \<Longrightarrow> map_of (paths t) x = Some p"
  by simp

lemma decode_loop_text:
  assumes "wf_node root" and "char root = None"
    and "\<forall>c\<in>set text. \<exists>p. map_of cs c = Some p \<and> (c, p) \<in> set (paths (Some root))"
  shows "\<exists>e. get_encoded_text cs text = Inr e
       \<and> decode_loop (trie_of root) (trie_of root) (e @ rest) acc
           = decode_loop (trie_of root) (trie_of root) rest (acc @ text)"
  using assms(3)
proof (induction "text" arbitrary: acc)
  case Nil
  show ?case by simp
next
  case (Cons c "text")
  then obtain p where p: "map_of cs c = Some p" "(c, p) \<in> set (paths (Some root))" by auto
  from Cons obtain e where e: "get_encoded_text cs text = Inr e"
    and d: "decode_loop (trie_of root) (trie_of root) (e @ rest) (acc @ [c])
              = decode_loop (trie_of root) (trie_of root) rest ((acc @ [c]) @ text)"
    by (metis list.set_intros(2))
  have "decode_loop (trie_of root) (trie_of root) ((p @ e) @ rest) acc
          = decode_loop (trie_of root) (trie_of root) (e @ rest) (acc @ [c])"
    using decode_loop_codeword [OF assms(1,2) p(2), of "trie_of root" "e @ rest" acc] by simp
  with d e p show ?case by simp
qed

lemma decode_loop_no_other_error:
  "(\<exists>out. decode_loop tree node encoded_text acc = Inr out)
     \<or> decode_loop tree node encoded_text acc = Inl KeyError"
  by (induction tree node encoded_text acc rule: decode_loop.induct)
    (auto split: option.splits)

text \<open>
  Claim C7, as amended. Claim C7 says that the decoding traversal fails with
  \<open>CorruptStreamError\<close> when the bit-string ends in the middle of a codeword. The program
  has no such check. When the bit-string is the encoding of a text followed by a proper
  prefix \<open>q\<close> of a codeword, \<^verbatim>\<open>decode_text_tree\<close> returns the text and drops \<open>q\<close>
  silently. On every bit-string and every decode tree it takes one step per bit and either
  returns or raises \<open>KeyError\<close>, at a node without an entry for the bit.
\<close>

theorem decode_drops_partial_codeword:
  assumes "distinct (map fst frequency)"
    and "set text \<subseteq> set (map fst frequency)"
    and "(x, cx) \<in> set (codes (fst (build init frequency)))"
    and "strict_prefix q cx"
  shows "(\<exists>e. get_encoded_text (codes (fst (build init frequency))) text = Inr e
            \<and> decode_text_tree (e @ q) (build_decode_tree (codes (fst (build init frequency))))
                = Inr text)
         \<and> ((\<exists>out. decode_text_tree encoded_text tree = Inr out)
              \<or> decode_text_tree encoded_text tree = Inl KeyError)"
proof -
  have ne: "frequency \<noteq> []"
  proof
    assume "frequency = []"
    then have "build init frequency = (init, Inl IndexError)"
      using build_empty [of init] by (simp add: init_def)
    with assms(3) show False by (simp add: init_def)
  qed
  from build_init [OF assms(1) ne] obtain root where
    w: "wf_node root" and s: "mset (symbols root) = mset (map fst frequency)"
    and b: "build init frequency = (\<lparr>heap = [], codes = code_table root\<rparr>, Inr ())"
    by blast
  have cs: "codes (fst (build init frequency)) = paths (Some root)"
    by (simp add: b code_table_def)
  have d: "distinct (map fst (paths (Some root)))"
    using assms(1) s by (metis mset_eq_imp_distinct_iff symbols_def)
  have inner: "char root = None"
  proof (cases "char root")
    case (Some ch)
    with w have "paths (Some root) = [(ch, [])]" by (rule leaf_symbols)
    with assms(3,4) cs show ?thesis by simp
  qed
  have "set text \<subseteq> fst ` set (paths (Some root))"
    using assms(2) s by (metis mset_eq_setD set_map symbols_def)
  then have "\<forall>c\<in>set text. \<exists>p. map_of (paths (Some root)) c = Some p \<and> (c, p) \<in> set (paths (Some root))"
    using d by (fastforce simp: subset_iff image_iff)
  from decode_loop_text [OF w inner this, of q "[]"] obtain e where
    e: "get_encoded_text (paths (Some root)) text = Inr e"
    and dl: "decode_loop (trie_of root) (trie_of root) (e @ q) []
               = decode_loop (trie_of root) (trie_of root) q text"
    by auto
  have x: "(x, cx) \<in> set (paths (Some root))" using assms(3) cs by simp
  have "decode_loop (trie_of root) (trie_of root) q text = Inr text"
    using w inner x assms(4) by (rule decode_loop_partial)
  with e dl have "decode_text_tree (e @ q) (build_decode_tree (paths (Some root))) = Inr text"
    by (simp add: decode_text_tree_def build_decode_tree_insert_all insert_all_paths [OF w])
  with e show ?thesis
    using decode_loop_no_other_error [of tree tree encoded_text "[]"]
    by (simp add: cs decode_text_tree_def)
qed

theorem decode_drops_partial_codeword_witness:
  "distinct (map fst [(CHR ''a'', 1), (CHR ''b'', 1), (CHR ''c'', 1 :: int)])
   \<and> set ''cab'' \<subseteq> set (map fst [(CHR ''a'', 1), (CHR ''b'', 1), (CHR ''c'', 1 :: int)])
   \<and> (CHR ''a'', [B1, B0]) \<in> set (codes (fst (build init [(CHR ''a'', 1), (CHR ''b'', 1), (CHR ''c'', 1)])))
   \<and> strict_prefix [B1] [B1, B0]
   \<and> get_encoded_text (codes (fst (build init [(CHR ''a'', 1), (CHR ''b'', 1), (CHR ''c'', 1)]))) ''cab''
        = Inr [B0, B1, B0, B1, B1]
   \<and> decode_text_tree ([B0, B1, B0, B1, B1] @ [B1])
        (build_decode_tree (codes (fst (build init [(CHR ''a'', 1), (CHR ''b'', 1), (CHR ''c'', 1)]))))
        = Inr ''cab''"
proof -
  let ?fr = "[(CHR ''a'', 1), (CHR ''b'', 1), (CHR ''c'', 1 :: int)]"
  have 1: "distinct (map fst ?fr)" by simp
  have 2: "set ''cab'' \<subseteq> set (map fst ?fr)" by simp
  have c: "codes (fst (build init ?fr)) = [(CHR ''c'', [B0]), (CHR ''a'', [B1, B0]), (CHR ''b'', [B1, B1])]"
    by code_simp
  have 3: "(CHR ''a'', [B1, B0]) \<in> set (codes (fst (build init ?fr)))" unfolding c by simp
  have 4: "strict_prefix [B1] [B1, B0]" by simp
  have 5: "get_encoded_text (codes (fst (build init ?fr))) ''cab'' = Inr [B0, B1, B0, B1, B1]"
    unfolding c by simp
  from decode_drops_partial_codeword [OF 1 2 3 4] 5
  have "decode_text_tree ([B0, B1, B0, B1, B1] @ [B1]) (build_decode_tree (codes (fst (build init ?fr))))
          = Inr ''cab''" by auto
  with 1 2 3 4 5 show ?thesis by blast
qed

text \<open>
  The counterexample to claim C7 as stated: with the code table of the frequencies
  \<^verbatim>\<open>{'a': 1, 'b': 1, 'c': 1}\<close>, the bit-string \<^verbatim>\<open>"01"\<close> is the code of \<^verbatim>\<open>'c'\<close>
  and half of a codeword; the result is \<^verbatim>\<open>"c"\<close> and no error.
\<close>

theorem truncated_stream_no_CorruptStreamError:
  "codes (fst (build init [(CHR ''a'', 1), (CHR ''b'', 1), (CHR ''c'', 1)]))
     = [(CHR ''c'', [B0]), (CHR ''a'', [B1, B0]), (CHR ''b'', [B1, B1])]
   \<and> decode_text_tree [B0, B1]
        (build_decode_tree [(CHR ''c'', [B0]), (CHR ''a'', [B1, B0]), (CHR ''b'', [B1, B1])])
       = Inr ''c''
   \<and> decode_text_tree [B0, B1]
        (build_decode_tree [(CHR ''c'', [B0]), (CHR ''a'', [B1, B0]), (CHR ''b'', [B1, B1])])
       \<noteq> Inl CorruptStreamError"
  by code_simp

section \<open>The header and the delimiter\<close>

lemma printable_append [simp]: "printable (xs @ ys) = (printable xs \<and> printable ys)"
  by (simp add: printable_def)

lemma printable_Cons [simp]: "printable (x # xs) = (32 \<le> x \<and> x \<le> 126 \<and> printable xs)"
  by (simp add: printable_def)

lemma printable_Nil [simp]: "printable []"
  by (simp add: printable_def)

lemma printable_no_newline: "printable bs \<Longrightarrow> 10 \<notin> set bs"
  by (auto simp: printable_def list_all_iff)

lemma hex_digit_range: "d < 16 \<Longrightarrow> 32 \<le> hex_digit d \<and> hex_digit d \<le> 126"
  by (simp add: hex_digit_def)

lemma printable_u_escape: "printable (u_escape n)"
  by (simp add: u_escape_def hex_digit_range)

lemma printable_escape_char: "printable (escape_char n)"
  by (simp add: escape_char_def printable_u_escape)

lemma printable_concat: "\<forall>x\<in>set xs. printable x \<Longrightarrow> printable (concat xs)"
  by (induction xs) auto

lemma printable_encode_basestring_ascii: "printable (encode_basestring_ascii s)"
  by (simp add: encode_basestring_ascii_def printable_concat printable_escape_char)

lemma printable_dec_digits: "printable (dec_digits n)"
proof (induction n rule: dec_digits.induct)
  case (1 n)
  have "n mod 10 < 10" by simp
  then have "n mod 10 \<le> 78" by linarith
  with 1 show ?case by (subst dec_digits.simps) simp
qed

lemma printable_int_repr: "printable (int_repr i)"
  by (simp add: int_repr_def printable_dec_digits)

lemma printable_join_items: "\<forall>x\<in>set xs. printable x \<Longrightarrow> printable (join_items xs)"
  by (induction xs rule: join_items.induct) auto

lemma printable_dumps_frequency: "printable (dumps_frequency frequency)"
  by (auto simp: dumps_frequency_def printable_encode_basestring_ascii printable_int_repr
      intro!: printable_join_items)

lemma printable_json_dumps_header: "printable (json_dumps_header frequency ext)"
  by (simp add: json_dumps_header_def printable_encode_basestring_ascii printable_dumps_frequency)

lemma read_header_delimiter:
  "10 \<notin> set h \<Longrightarrow> read_header (h @ 10 # payload) acc = Some (acc @ h, payload)"
proof (induction h arbitrary: acc)
  case Nil
  show ?case by (subst read_header.simps) simp
next
  case (Cons b h)
  then have "read_header (h @ 10 # payload) (acc @ [b]) = Some ((acc @ [b]) @ h, payload)"
    by simp
  with Cons.prems show ?case by (subst read_header.simps) simp
qed

lemma read_header_no_delimiter:
  assumes "read_header bs acc = Some r"
  shows "10 \<in> set bs"
  using assms
proof (induction bs acc r rule: read_header.raw_induct)
  case (1 read_header' bs acc r)
  obtain h p where r: "r = (h, p)" by (cases r)
  show ?case
  proof (cases bs)
    case Nil
    with 1(2) have "read_header' [] acc = Some (h, p)" by (simp add: r)
    moreover from Nil 1(3) have "read_header [] acc = Some (h, p)" by (simp add: r)
    ultimately have "10 \<in> set ([] :: nat list)" by (rule 1(1))
    then show ?thesis by simp
  next
    case (Cons b rest)
    show ?thesis
    proof (cases "b = 10")
      case True
      with Cons show ?thesis by simp
    next
      case False
      with Cons 1(2) have "read_header' rest (acc @ [b]) = Some (h, p)" by (simp add: r)
      moreover from False Cons 1(3) have "read_header rest (acc @ [b]) = Some (h, p)"
        by (subst (asm) read_header.simps) (simp add: r)
      ultimately have "10 \<in> set rest" by (rule 1(1))
      with Cons show ?thesis by simp
    qed
  qed
next
  case 2
  show ?case by (rule assms)
qed

lemma hex4_value:
  assumes "n < 65536"
  shows "((n div 4096 mod 16 * 16 + n div 256 mod 16) * 16 + n div 16 mod 16) * 16 + n mod 16 = (n::nat)"
proof -
  define a where "a = n div 4096"
  define b where "b = n div 256 mod 16"
  define c where "c = n div 16 mod 16"
  define d where "d = n mod 16"
  have 1: "n = n div 16 * 16 + d" by (simp add: d_def)
  have 2: "n div 16 = n div 256 * 16 + c"
    using div_mult_mod_eq [of "n div 16" 16] by (simp add: c_def div_mult2_eq [symmetric])
  have 3: "n div 256 = a * 16 + b"
    using div_mult_mod_eq [of "n div 256" 16] by (simp add: a_def b_def div_mult2_eq [symmetric])
  have 4: "n div 4096 mod 16 = a" using assms by (simp add: a_def)
  have "((a * 16 + b) * 16 + c) * 16 + d = n"
    using 1 2 3 by simp
  then show ?thesis by (simp only: 4 b_def c_def d_def)
qed

lemma hex_val_hex_digit: "d < 16 \<Longrightarrow> hex_val (hex_digit d) = Some d"
  by (simp add: hex_val_def hex_digit_def)

lemma u_escape_shape:
  "n < 65536 \<Longrightarrow> \<exists>hs. u_escape n = 92 # 117 # hs \<and> length hs = 4 \<and> decode_uXXXX hs = Some n"
proof -
  assume n: "n < 65536"
  let ?hs = "[hex_digit (n div 4096 mod 16), hex_digit (n div 256 mod 16),
              hex_digit (n div 16 mod 16), hex_digit (n mod 16)]"
  have "decode_uXXXX ?hs
          = Some (((n div 4096 mod 16 * 16 + n div 256 mod 16) * 16 + n div 16 mod 16) * 16 + n mod 16)"
    by (simp only: decode_uXXXX.simps hex_val_hex_digit mod_less_divisor zero_less_numeral
        prod.case option.case)
  then have "decode_uXXXX ?hs = Some n" by (simp only: hex4_value [OF n])
  moreover have "u_escape n = 92 # 117 # ?hs" by (simp only: u_escape_def)
  moreover have "length ?hs = 4" by simp
  ultimately show ?thesis by blast
qed

lemma scanstring_u:
  assumes "length hs = 4" and "decode_uXXXX hs = Some uni"
    and "\<not> (55296 \<le> uni \<and> uni \<le> 56319)"
  shows "scanstring (92 # 117 # hs @ rest) acc = scanstring rest (acc @ [uni])"
  using assms by auto

lemma scanstring_uu:
  assumes "length hs = 4" and "decode_uXXXX hs = Some hi"
    and "length ls = 4" and "decode_uXXXX ls = Some lo"
    and "55296 \<le> hi" "hi \<le> 56319" "56320 \<le> lo" "lo \<le> 57343"
  shows "scanstring (92 # 117 # hs @ 92 # 117 # ls @ rest) acc
           = scanstring rest (acc @ [65536 + ((hi - 55296) * 1024 + (lo - 56320))])"
  using assms by simp

lemma scanstring_escape_char:
  assumes "no_high_surrogate c"
  shows "scanstring (escape_char c @ rest) acc = scanstring rest (acc @ [c])"
proof (cases "c \<in> {34, 92, 10, 13, 9, 8, 12}")
  case True
  then show ?thesis by (auto simp: escape_char_def backslash_def)
next
  case special: False
  show ?thesis
  proof (cases "32 \<le> c \<and> c \<le> 126")
    case True
    with special show ?thesis by (simp add: escape_char_def)
  next
    case np: False
    show ?thesis
    proof (cases "c < 65536")
      case True
      with special np have e: "escape_char c = u_escape c" by (auto simp: escape_char_def)
      from u_escape_shape [OF True] obtain hs where
        hs: "u_escape c = 92 # 117 # hs" "length hs = 4" "decode_uXXXX hs = Some c" by blast
      from assms True have ns: "\<not> (55296 \<le> c \<and> c \<le> 56319)" by (auto simp: no_high_surrogate_def)
      have "scanstring (92 # 117 # hs @ rest) acc = scanstring rest (acc @ [c])"
        using hs(2,3) ns by (rule scanstring_u)
      then show ?thesis by (simp only: e hs(1) append_Cons)
    next
      case False
      define m where "m = c - 65536"
      define hi where "hi = 55296 + m div 1024 mod 1024"
      define lo where "lo = 56320 + m mod 1024"
      from assms False have m: "m < 1048576" by (auto simp: no_high_surrogate_def m_def)
      have e: "escape_char c = u_escape hi @ u_escape lo"
        using special np False by (auto simp: escape_char_def hi_def lo_def m_def)
      have hi: "55296 \<le> hi" "hi \<le> 56319" by (simp_all add: hi_def)
      have lo: "56320 \<le> lo" "lo \<le> 57343" by (simp_all add: lo_def)
      from hi have "hi < 65536" by simp
      from u_escape_shape [OF this] obtain hs where
        hs: "u_escape hi = 92 # 117 # hs" "length hs = 4" "decode_uXXXX hs = Some hi" by blast
      from lo have "lo < 65536" by simp
      from u_escape_shape [OF this] obtain ls where
        ls: "u_escape lo = 92 # 117 # ls" "length ls = 4" "decode_uXXXX ls = Some lo" by blast
      have "m div 1024 mod 1024 = m div 1024" using m by simp
      then have "65536 + ((hi - 55296) * 1024 + (lo - 56320)) = c"
        using False by (simp add: hi_def lo_def m_def)
      moreover have "scanstring (92 # 117 # hs @ 92 # 117 # ls @ rest) acc
           = scanstring rest (acc @ [65536 + ((hi - 55296) * 1024 + (lo - 56320))])"
        using hs(2,3) ls(2,3) hi lo by (rule scanstring_uu)
      ultimately show ?thesis by (simp only: e hs(1) ls(1) append_Cons append_assoc)
    qed
  qed
qed

lemma scanstring_escaped:
  "list_all no_high_surrogate s \<Longrightarrow>
     scanstring (concat (map escape_char s) @ 34 # rest) acc = Inr (acc @ s, rest)"
proof (induction s arbitrary: acc)
  case Nil
  show ?case by simp
next
  case (Cons c s)
  then have c: "no_high_surrogate c" and s: "list_all no_high_surrogate s" by simp_all
  have "scanstring (concat (map escape_char (c # s)) @ 34 # rest) acc
          = scanstring (escape_char c @ (concat (map escape_char s) @ 34 # rest)) acc"
    by simp
  also have "\<dots> = scanstring (concat (map escape_char s) @ 34 # rest) (acc @ [c])"
    using c by (rule scanstring_escape_char)
  also have "\<dots> = Inr ((acc @ [c]) @ s, rest)" using s by (rule Cons.IH)
  finally show ?case by simp
qed

lemma scanstring_encode_basestring_ascii:
  "list_all no_high_surrogate s \<Longrightarrow>
     encode_basestring_ascii s @ rest = 34 # body \<Longrightarrow> scanstring body [] = Inr (s, rest)"
  using scanstring_escaped [of s rest "[]"] by (simp add: encode_basestring_ascii_def)

lemma dec_digits_nonempty: "dec_digits n \<noteq> []"
  by (subst dec_digits.simps) simp

lemma dec_digits_are_digits: "list_all is_digit (dec_digits n)"
proof (induction n rule: dec_digits.induct)
  case (1 n)
  have "n mod 10 < 10" by simp
  then have "n mod 10 \<le> 9" by linarith
  with 1 show ?case by (subst dec_digits.simps) (auto simp: is_digit_def list_all_iff)
qed

lemma digits_val_snoc: "digits_val (ds @ [d]) = 10 * digits_val ds + (d - 48)"
  by (simp add: digits_val_def)

lemma digits_val_dec_digits: "digits_val (dec_digits n) = n"
proof (induction n rule: dec_digits.induct)
  case (1 n)
  show ?case
  proof (cases "n < 10")
    case True
    then show ?thesis by (subst dec_digits.simps) (simp add: digits_val_def)
  next
    case False
    with 1 have "digits_val (dec_digits (n div 10)) = n div 10" by simp
    with False show ?thesis by (subst dec_digits.simps) (simp add: digits_val_snoc)
  qed
qed

lemma hd_dec_digits: "0 < n \<Longrightarrow> hd (dec_digits n) \<noteq> 48"
proof (induction n rule: dec_digits.induct)
  case (1 n)
  show ?case
  proof (cases "n < 10")
    case True
    with "1.prems" show ?thesis by (subst dec_digits.simps) simp
  next
    case False
    then have "0 < n div 10" by simp
    with 1 False have "hd (dec_digits (n div 10)) \<noteq> 48" by simp
    with False show ?thesis
      by (subst dec_digits.simps) (simp add: dec_digits_nonempty)
  qed
qed

lemma dec_digits_no_leading_zero:
  "\<not> (1 < length (dec_digits n) \<and> hd (dec_digits n) = 48)"
proof (cases "n < 10")
  case True
  then show ?thesis by (subst dec_digits.simps) simp
next
  case False
  then have "0 < n" by simp
  then show ?thesis using hd_dec_digits by blast
qed

lemma scan_nat_dec_digits:
  assumes "r = 44 \<or> r = 125"
  shows "scan_nat (dec_digits n @ r # rs) = Inr (n, r # rs)"
proof -
  have nd: "\<not> is_digit r" using assms by (auto simp: is_digit_def)
  have all: "\<And>x. x \<in> set (dec_digits n) \<Longrightarrow> is_digit x"
    using dec_digits_are_digits [of n] by (simp add: list_all_iff)
  have t: "takeWhile is_digit (dec_digits n @ r # rs) = dec_digits n"
    using all nd by (simp add: takeWhile_append2)
  have d: "dropWhile is_digit (dec_digits n @ r # rs) = r # rs"
    using all nd by (simp add: dropWhile_append2)
  show ?thesis
    using assms dec_digits_no_leading_zero [of n]
    by (auto simp: scan_nat_def t d dec_digits_nonempty digits_val_dec_digits)
qed

lemma is_digit_hd_dec_digits: "is_digit (hd (dec_digits n))"
  using dec_digits_are_digits [of n] dec_digits_nonempty [of n]
  by (cases "dec_digits n") simp_all

lemma scan_int_int_repr:
  assumes "r = 44 \<or> r = 125"
  shows "scan_int (int_repr i @ r # rs) = Inr (i, r # rs)"
proof (cases "i < 0")
  case True
  then show ?thesis
    using scan_nat_dec_digits [OF assms, of "nat (- i)" rs]
    by (simp add: scan_int_def int_repr_def)
next
  case False
  obtain d ds where ds: "dec_digits (nat i) = d # ds"
    using dec_digits_nonempty [of "nat i"] by (cases "dec_digits (nat i)") auto
  have "is_digit d" using is_digit_hd_dec_digits [of "nat i"] ds by simp
  then have "d \<noteq> 45" by (auto simp: is_digit_def)
  moreover have "scan_nat (d # ds @ r # rs) = Inr (nat i, r # rs)"
    using scan_nat_dec_digits [OF assms, of "nat i" rs] ds by simp
  ultimately show ?thesis
    using False by (simp add: scan_int_def int_repr_def ds)
qed

lemma expect_literal: "expect lit (lit @ s) = Inr s"
  by (simp add: expect_def)

lemma dumps_frequency_items:
  "dumps_frequency frequency = [123] @ join_items (map dumps_item frequency) @ [125]"
  by (simp add: dumps_frequency_def dumps_item_def [abs_def] case_prod_unfold)

lemma scan_item:
  assumes "list_all no_high_surrogate k" and "r = 44 \<or> r = 125"
  shows "\<exists>body. dumps_item (k, f) @ r # rs = 34 # body
           \<and> scanstring body [] = Inr (k, [58, 32] @ int_repr f @ r # rs)"
proof -
  have "dumps_item (k, f) @ r # rs
          = 34 # (concat (map escape_char k) @ 34 # ([58, 32] @ int_repr f @ r # rs))"
    by (simp add: dumps_item_def encode_basestring_ascii_def)
  moreover have "scanstring (concat (map escape_char k) @ 34 # ([58, 32] @ int_repr f @ r # rs)) []
          = Inr (k, [58, 32] @ int_repr f @ r # rs)"
    using scanstring_escaped [OF assms(1), of "[58, 32] @ int_repr f @ r # rs" "[]"] by simp
  ultimately show ?thesis by blast
qed

lemma scan_items_step:
  assumes "list_all no_high_surrogate k" and "r = 44 \<or> r = 125"
  shows "scan_items (dumps_item (k, f) @ r # rs) d =
           (if take 2 (r # rs) = [44, 32] then scan_items (drop 2 (r # rs)) (dict_set d k f)
            else if take 1 (r # rs) = [125] then Inr (dict_set d k f, drop 1 (r # rs))
            else Inl OutsideModel)"
proof -
  from scan_item [OF assms, of f rs] obtain body where
    b: "dumps_item (k, f) @ r # rs = 34 # body"
    and s: "scanstring body [] = Inr (k, [58, 32] @ int_repr f @ r # rs)" by blast
  have e1: "expect [34] (34 # body) = Inr body" by (simp add: expect_def)
  have e2: "expect [58, 32] ([58, 32] @ int_repr f @ r # rs) = Inr (int_repr f @ r # rs)"
    by (rule expect_literal)
  have i: "scan_int (int_repr f @ r # rs) = Inr (f, r # rs)"
    using assms(2) by (rule scan_int_int_repr)
  show ?thesis
    by (subst scan_items.simps) (simp only: b e1 s e2 i sum.case prod.case)
qed

lemma scan_items_join:
  "frequency \<noteq> [] \<Longrightarrow> list_all (\<lambda>kf. list_all no_high_surrogate (fst kf)) frequency \<Longrightarrow>
     scan_items (join_items (map dumps_item frequency) @ 125 # rest) d
       = Inr (foldl (\<lambda>d (k, f). dict_set d k f) d frequency, rest)"
proof (induction frequency arbitrary: d)
  case Nil
  then show ?case by simp
next
  case (Cons kf frequency)
  obtain k f where kf: "kf = (k, f)" by (cases kf)
  from Cons.prems kf have k: "list_all no_high_surrogate k" by simp
  show ?case
  proof (cases frequency)
    case Nil
    have "scan_items (dumps_item (k, f) @ 125 # rest) d = Inr (dict_set d k f, rest)"
      using k by (subst scan_items_step) simp_all
    with Nil kf show ?thesis by simp
  next
    case (Cons kf' frequency')
    let ?tail = "join_items (map dumps_item frequency) @ 125 # rest"
    have "scan_items (dumps_item (k, f) @ 44 # 32 # ?tail) d = scan_items ?tail (dict_set d k f)"
      using k by (subst scan_items_step) simp_all
    moreover have "scan_items ?tail (dict_set d k f)
        = Inr (foldl (\<lambda>d (k, f). dict_set d k f) (dict_set d k f) frequency, rest)"
      using Cons.prems Cons by (intro Cons.IH) simp_all
    moreover have "join_items (map dumps_item (kf # frequency)) @ 125 # rest
        = dumps_item (k, f) @ 44 # 32 # ?tail"
      using Cons kf by simp
    ultimately show ?thesis by (simp add: kf)
  qed
qed

lemma foldl_dict_set_distinct:
  "distinct (map fst ps) \<Longrightarrow> set (map fst ps) \<inter> set (map fst d) = {} \<Longrightarrow>
     foldl (\<lambda>d (k, v). dict_set d k v) d ps = d @ ps"
proof (induction ps arbitrary: d)
  case Nil
  show ?case by simp
next
  case (Cons kv ps)
  obtain k v where kv: "kv = (k, v)" by (cases kv)
  from Cons.prems kv have fresh: "k \<notin> set (map fst d)" by auto
  have "foldl (\<lambda>d (k, v). dict_set d k v) (d @ [(k, v)]) ps = (d @ [(k, v)]) @ ps"
    using Cons.prems kv by (intro Cons.IH) auto
  then show ?case using fresh by (simp add: kv dict_set_fresh)
qed

lemma join_items_starts_with_quote:
  "frequency \<noteq> [] \<Longrightarrow> \<exists>body. join_items (map dumps_item frequency) @ rest = 34 # body"
proof (cases frequency)
  case Nil
  assume "frequency \<noteq> []"
  with Nil show ?thesis by simp
next
  case (Cons kf frequency')
  then show ?thesis
    by (cases frequency') (simp_all add: dumps_item_def encode_basestring_ascii_def)
qed

lemma scan_frequency_dumps:
  assumes "distinct (map fst frequency)"
    and "list_all (\<lambda>kf. list_all no_high_surrogate (fst kf)) frequency"
  shows "scan_frequency (dumps_frequency frequency @ rest) = Inr (frequency, rest)"
proof (cases "frequency = []")
  case True
  then show ?thesis
    by (simp add: scan_frequency_def dumps_frequency_items expect_def)
next
  case False
  from join_items_starts_with_quote [OF False, of "125 # rest"] obtain body where
    b: "join_items (map dumps_item frequency) @ 125 # rest = 34 # body" by blast
  have "scan_items (join_items (map dumps_item frequency) @ 125 # rest) []
          = Inr (foldl (\<lambda>d (k, f). dict_set d k f) [] frequency, rest)"
    using False assms(2) by (rule scan_items_join)
  also have "foldl (\<lambda>d (k, f). dict_set d k f) [] frequency = [] @ frequency"
    using assms(1) by (intro foldl_dict_set_distinct) simp_all
  finally have s: "scan_items (34 # body) [] = Inr (frequency, rest)" by (simp add: b)
  have "dumps_frequency frequency @ rest = 123 # 34 # body"
    using b by (simp add: dumps_frequency_items)
  then show ?thesis
    using s by (simp add: scan_frequency_def expect_def)
qed

lemma json_loads_dumps:
  assumes "distinct (map fst frequency)"
    and "list_all (\<lambda>kf. list_all no_high_surrogate (fst kf)) frequency"
    and "list_all no_high_surrogate ext"
  shows "json_loads_header (json_dumps_header frequency ext) = Inr (frequency, ext)"
proof -
  let ?p1 = "[123] @ encode_basestring_ascii (ascii ''frequency'') @ [58, 32]"
  let ?p2 = "[44, 32] @ encode_basestring_ascii (ascii ''original_extension'') @ [58, 32, 34]"
  let ?e = "concat (map escape_char ext) @ 34 # [125]"
  have shape: "json_dumps_header frequency ext = ?p1 @ dumps_frequency frequency @ ?p2 @ ?e"
    by (simp add: json_dumps_header_def encode_basestring_ascii_def)
  have 1: "expect ?p1 (?p1 @ dumps_frequency frequency @ ?p2 @ ?e)
             = Inr (dumps_frequency frequency @ ?p2 @ ?e)"
    by (rule expect_literal)
  have 2: "scan_frequency (dumps_frequency frequency @ ?p2 @ ?e) = Inr (frequency, ?p2 @ ?e)"
    using assms(1,2) by (rule scan_frequency_dumps)
  have 3: "expect ?p2 (?p2 @ ?e) = Inr ?e" by (rule expect_literal)
  have 4: "scanstring ?e [] = Inr ([] @ ext, [125])"
    using assms(3) by (rule scanstring_escaped)
  show ?thesis
    unfolding json_loads_header_def shape
    by (simp only: 1 2 3 4 sum.case prod.case append_Nil) simp
qed

text \<open>A file without the delimiter byte: the first loop of \<open>decompress\<close> never ends.\<close>

lemma decompress_without_delimiter: "10 \<notin> set bs \<Longrightarrow> decompress self bs = None"
proof -
  assume n: "10 \<notin> set bs"
  have "read_header bs [] = None"
  proof (cases "read_header bs []")
    case None
    then show ?thesis .
  next
    case (Some r)
    then have "10 \<in> set bs" by (rule read_header_no_delimiter)
    with n show ?thesis by simp
  qed
  then show ?thesis by (simp add: decompress_def)
qed

text \<open>
  Claim C8. For every frequency table and extension, the header text that
  \<^verbatim>\<open>json.dumps\<close> writes consists of printable ASCII characters and so does not contain
  the delimiter byte 10. On the header followed by the delimiter and any payload, the loop
  of \<^verbatim>\<open>decompress\<close> that reads up to the delimiter returns exactly the header text and
  leaves exactly the payload; and parsing the header text gives back the frequency table,
  with its entries in the same order, and the extension. The last part is stated for
  dictionaries (distinct keys) of strings without high surrogates: a high surrogate followed
  by a low one is written as two escapes that \<^verbatim>\<open>json.loads\<close> reads back as one
  character.
\<close>

theorem header_has_no_delimiter:
  "10 \<notin> set (json_dumps_header frequency ext)
   \<and> read_header (json_dumps_header frequency ext @ [10] @ payload) []
       = Some (json_dumps_header frequency ext, payload)
   \<and> (distinct (map fst frequency)
        \<and> list_all (\<lambda>kf. list_all no_high_surrogate (fst kf)) frequency
        \<and> list_all no_high_surrogate ext
       \<longrightarrow> json_loads_header (json_dumps_header frequency ext) = Inr (frequency, ext))"
proof -
  have n: "10 \<notin> set (json_dumps_header frequency ext)"
    using printable_json_dumps_header by (rule printable_no_newline)
  then have "read_header (json_dumps_header frequency ext @ 10 # payload) []
               = Some ([] @ json_dumps_header frequency ext, payload)"
    by (rule read_header_delimiter)
  with n json_loads_dumps [of frequency ext] show ?thesis by simp
qed

theorem header_has_no_delimiter_witness:
  "distinct (map fst [([97 :: nat], 5), ([10], 2 :: int)])
   \<and> list_all (\<lambda>kf. list_all no_high_surrogate (fst kf)) [([97], 5), ([10], 2 :: int)]
   \<and> list_all no_high_surrogate (ascii ''.txt'')
   \<and> 10 \<notin> set (json_dumps_header [([97], 5), ([10], 2)] (ascii ''.txt''))
   \<and> read_header (json_dumps_header [([97], 5), ([10], 2)] (ascii ''.txt'') @ [10] @ [3, 10, 7]) []
       = Some (json_dumps_header [([97], 5), ([10], 2)] (ascii ''.txt''), [3, 10, 7])
   \<and> json_loads_header (json_dumps_header [([97], 5), ([10], 2)] (ascii ''.txt''))
       = Inr ([([97], 5), ([10], 2)], ascii ''.txt'')"
proof -
  have 1: "distinct (map fst [([97], 5), ([10::nat], 2 :: int)])" by simp
  have 2: "list_all (\<lambda>kf. list_all no_high_surrogate (fst kf)) [([97], 5), ([10], 2 :: int)]"
    by (simp add: no_high_surrogate_def)
  have 3: "list_all no_high_surrogate (ascii ''.txt'')" by (simp add: no_high_surrogate_def ascii_def)
  from header_has_no_delimiter [of "[([97], 5), ([10], 2)]" "ascii ''.txt''" "[3, 10, 7]"] 1 2 3
  show ?thesis by blast
qed

section \<open>Round trip\<close>

text \<open>
  The test for a surrogate, in a form that evaluates without unfolding the two bounds when
  the code point is below 128.
\<close>

lemma surrogate_code [code]:
  "surrogate c = (if c < 128 then False else 55296 \<le> c \<and> c \<le> 57343)"
  by (simp add: surrogate_def)

lemma frequency_fold_keys:
  "distinct (map fst d) \<Longrightarrow>
     distinct (map fst (foldl (\<lambda>frequency character.
              dict_set frequency character
                ((case map_of frequency character of None \<Rightarrow> 0 | Some n \<Rightarrow> n) + 1)) d cs))
     \<and> set (map fst (foldl (\<lambda>frequency character.
              dict_set frequency character
                ((case map_of frequency character of None \<Rightarrow> 0 | Some n \<Rightarrow> n) + (1::int))) d cs))
         = set (map fst d) \<union> set cs"
proof (induction cs arbitrary: d)
  case Nil
  then show ?case by simp
next
  case (Cons c cs)
  let ?d = "dict_set d c ((case map_of d c of None \<Rightarrow> 0 | Some n \<Rightarrow> n) + 1)"
  have "distinct (map fst ?d)" using Cons.prems by (rule distinct_dict_set)
  from Cons.IH [OF this] show ?case by (auto simp: keys_dict_set split: if_splits)
qed

lemma make_frequency_dict_keys:
  "distinct (map fst (make_frequency_dict cs))
   \<and> set (map fst (make_frequency_dict cs)) = set cs"
  using frequency_fold_keys [of "[]" cs] by (simp add: make_frequency_dict_def)

lemma make_frequency_dict_Nil: "make_frequency_dict [] = []"
  by (simp add: make_frequency_dict_def)

lemma make_frequency_dict_nonempty: "cs \<noteq> [] \<Longrightarrow> make_frequency_dict cs \<noteq> []"
  using make_frequency_dict_keys [of cs] by (cases "make_frequency_dict cs") auto

lemma get_encoded_text_cong:
  "\<forall>c\<in>set cs. map_of t c = map_of t' c \<Longrightarrow> get_encoded_text t cs = get_encoded_text t' cs"
  by (induction cs) (auto split: option.splits)

lemma get_encoded_text_total:
  "\<forall>c\<in>set cs. c \<in> dom (map_of t) \<Longrightarrow> \<exists>e. get_encoded_text t cs = Inr e"
  by (induction cs) auto

lemma dom_code_table: "dom (map_of (code_table root)) = set (symbols root)"
  by (simp add: code_table_def symbols_def dom_map_of_conv_image_fst)

text \<open>What \<open>compress\<close> does on an object whose heap is empty.\<close>

lemma compress_empty_heap:
  assumes "heap self = []" and "text \<noteq> []"
  shows "\<exists>root e. huffman_tree (make_frequency_dict (characters text)) = Inr [root]
           \<and> wf_node root
           \<and> mset (symbols root) = mset (map fst (make_frequency_dict (characters text)))
           \<and> get_encoded_text (code_table root) (characters text) = Inr e
           \<and> compress self text ext =
               (\<lparr>heap = [], codes = make_codes_helper (Some root) [] (codes self)\<rparr>,
                Inr (json_dumps_header (make_frequency_dict (characters text)) ext @ [10]
                       @ map bits_val (chunks8 (pad_encoded_text e))))"
proof -
  let ?cs = "characters text"
  let ?fr = "make_frequency_dict ?cs"
  have cs: "?cs \<noteq> []" using assms(2) by (simp add: characters_def)
  then have fr: "?fr \<noteq> []" by (rule make_frequency_dict_nonempty)
  from huffman_tree_root [OF fr] obtain root where
    t: "huffman_tree ?fr = Inr [root]" and w: "wf_node root"
    and s: "mset (symbols root) = mset (map fst ?fr)" by blast
  have d: "distinct (symbols root)"
    using make_frequency_dict_keys [of ?cs] s by (metis mset_eq_imp_distinct_iff)
  have keys: "set (symbols root) = set ?cs"
    using make_frequency_dict_keys [of ?cs] s by (metis mset_eq_setD)
  let ?s = "\<lparr>heap = [], codes = make_codes_helper (Some root) [] (codes self)\<rparr>"
  have b: "build self ?fr = (?s, Inr ())" using assms(1) t by (rule build_tree)
  have "\<forall>c\<in>set ?cs. map_of (codes ?s) c = map_of (code_table root) c"
    using keys dom_code_table [of root]
    by (auto simp: code_table_lookup [OF d] map_add_def split: option.splits)
  then have g: "get_encoded_text (codes ?s) ?cs = get_encoded_text (code_table root) ?cs"
    by (rule get_encoded_text_cong)
  have "\<forall>c\<in>set ?cs. c \<in> dom (map_of (code_table root))"
    using keys dom_code_table [of root] by simp
  then obtain e where e: "get_encoded_text (code_table root) ?cs = Inr e"
    using get_encoded_text_total by blast
  have ba: "get_byte_array (pad_encoded_text e) = Inr (map bits_val (chunks8 (pad_encoded_text e)))"
    using length_pad_mod8 by (rule get_byte_array_aligned)
  have "compress self text ext =
          (?s, Inr (json_dumps_header ?fr ext @ [10] @ map bits_val (chunks8 (pad_encoded_text e))))"
    using g e by (simp add: compress_def b ba)
  with t w s e show ?thesis by blast
qed

lemma heap_after_build: "heap self = [] \<Longrightarrow> heap (fst (build self frequency)) = []"
proof (cases "frequency = []")
  case True
  assume "heap self = []"
  with True show ?thesis by (simp add: build_empty)
next
  case False
  assume h: "heap self = []"
  from huffman_tree_root [OF False] obtain root where "huffman_tree frequency = Inr [root]"
    by blast
  with h show ?thesis by (simp add: build_tree)
qed

lemma remove_padding_pad: "remove_padding (pad_encoded_text b) = Inr b"
proof -
  have r: "1 \<le> extra_padding b \<and> extra_padding b \<le> 8" by (rule extra_padding_range)
  have "slice_8_neg (pad_encoded_text b) (extra_padding b) = b"
    using r by (simp add: slice_8_neg_def drop_8_pad_encoded_text length_pad_encoded_text)
  then show ?thesis
    by (simp add: remove_padding_def take_8_pad_encoded_text int_base2_format_08b)
qed

lemma root_internal:
  assumes "wf_node root" and "set (symbols root) = ks" and "a \<in> ks" and "b \<in> ks" and "a \<noteq> b"
  shows "char root = None"
proof (cases "char root")
  case None
  then show ?thesis .
next
  case (Some ch)
  with assms(1) have "paths (Some root) = [(ch, [])]" by (rule leaf_symbols)
  then have "set (symbols root) = {ch}" by (simp add: symbols_def)
  with assms(2-5) show ?thesis by auto
qed

lemma concat_characters: "concat (characters text) = text"
  by (induction "text") (simp_all add: characters_def)

lemma set_characters: "set (characters text) = (\<lambda>c. [c]) ` set text"
  by (simp add: characters_def)

lemma frequency_keys_no_high_surrogate:
  assumes "list_all no_high_surrogate text"
  shows "list_all (\<lambda>kf. list_all no_high_surrogate (fst kf)) (make_frequency_dict (characters text))"
proof -
  have "\<forall>k\<in>set (map fst (make_frequency_dict (characters text))). list_all no_high_surrogate k"
    using assms make_frequency_dict_keys [of "characters text"]
    by (auto simp: set_characters list_all_iff)
  then show ?thesis by (simp add: list_all_iff)
qed

text \<open>What \<open>decompress\<close> does on a file that \<open>compress\<close> has written.\<close>

lemma decompress_body_init:
  assumes "json_loads_header header_bytes = Inr (frequency, ext)"
    and "huffman_tree frequency = Inr [root]"
    and "distinct (symbols root)"
    and "remove_padding (unpack_bytes payload) = Inr e"
  shows "decompress_body init header_bytes payload =
           (\<lparr>heap = [], codes = code_table root\<rparr>,
            case decode_text_tree e (build_decode_tree (code_table root)) of
              Inl err \<Rightarrow> Inl err
            | Inr decoded_text \<Rightarrow>
                (case write_utf8 (concat decoded_text) of
                   Inl err \<Rightarrow> Inl err
                 | Inr written \<Rightarrow> Inr (ext, written)))"
proof -
  have "build init frequency = (\<lparr>heap = [], codes = code_table root\<rparr>, Inr ())"
    using build_tree [of init frequency root] assms(2,3)
    by (simp add: init_def code_table_fresh)
  then show ?thesis
    using assms(1,4) by (simp add: decompress_body_def split: sum.splits)
qed

text \<open>
  Round trip for a text with at least two distinct symbols: on new objects, \<open>compress\<close>
  returns a file and \<open>decompress\<close> of that file returns, with the extension and the text.
  The text has no surrogate code point, as every text decoded from UTF-8; the extension
  has no high surrogate.
\<close>

theorem round_trip_two_symbols:
  assumes "list_all no_high_surrogate text" and "list_all no_high_surrogate ext"
    and "a \<in> set text" and "b \<in> set text" and "a \<noteq> b"
    and "\<not> list_ex surrogate text"
  shows "\<exists>s file s'. compress init text ext = (s, Inr file)
           \<and> decompress init file = Some (s', Inr (ext, text))"
proof -
  let ?cs = "characters text"
  let ?fr = "make_frequency_dict ?cs"
  have ne: "text \<noteq> []" using assms(3) by auto
  have h: "heap (init :: pystr HuffmanCoding) = []" by (simp add: init_def)
  from compress_empty_heap [OF h ne, of ext] obtain root e where
    t: "huffman_tree ?fr = Inr [root]" and w: "wf_node root"
    and s: "mset (symbols root) = mset (map fst ?fr)"
    and e: "get_encoded_text (code_table root) ?cs = Inr e"
    and c: "compress init text ext =
               (\<lparr>heap = [], codes = make_codes_helper (Some root) [] (codes init)\<rparr>,
                Inr (json_dumps_header ?fr ext @ [10] @ map bits_val (chunks8 (pad_encoded_text e))))"
    by blast
  let ?header = "json_dumps_header ?fr ext"
  let ?payload = "map bits_val (chunks8 (pad_encoded_text e))"
  have d: "distinct (symbols root)"
    using make_frequency_dict_keys [of ?cs] s by (metis mset_eq_imp_distinct_iff)
  have keys: "set (symbols root) = set ?cs"
    using make_frequency_dict_keys [of ?cs] s by (metis mset_eq_setD)
  have inner: "char root = None"
    using w keys
  proof (rule root_internal)
    show "[a] \<in> set ?cs" "[b] \<in> set ?cs" using assms(3,4) by (simp_all add: set_characters)
    show "[a] \<noteq> [b]" using assms(5) by simp
  qed
  have rh: "read_header (?header @ [10] @ ?payload) [] = Some (?header, ?payload)"
    using read_header_delimiter [OF printable_no_newline [OF printable_json_dumps_header],
        of ?fr ext ?payload "[]"] by simp
  have jl: "json_loads_header ?header = Inr (?fr, ext)"
    using make_frequency_dict_keys [of ?cs] frequency_keys_no_high_surrogate [OF assms(1)] assms(2)
    by (intro json_loads_dumps) simp_all
  have rp: "remove_padding (unpack_bytes ?payload) = Inr e"
    by (simp add: unpack_get_byte_array length_pad_mod8 remove_padding_pad)
  have dd: "distinct (map fst (paths (Some root)))" using d by (simp add: symbols_def)
  have "\<forall>c\<in>set ?cs. \<exists>p. map_of (code_table root) c = Some p \<and> (c, p) \<in> set (paths (Some root))"
    using keys dd by (fastforce simp: code_table_def symbols_def image_iff)
  from decode_loop_text [OF w inner this, of "[]" "[]"] e
  have dl: "decode_text_tree e (build_decode_tree (code_table root)) = Inr ?cs"
    by (simp add: decode_text_tree_def build_decode_tree_insert_all code_table_def
        insert_all_paths [OF w])
  have wr: "write_utf8 (concat ?cs) = Inr text"
    using assms(6) by (simp add: write_utf8_def concat_characters)
  have "decompress init (?header @ [10] @ ?payload) =
          Some (\<lparr>heap = [], codes = code_table root\<rparr>, Inr (ext, text))"
    by (simp add: decompress_def rh decompress_body_init [OF jl t d rp] dl wr
        del: append.simps)
  with c show ?thesis by blast
qed

text \<open>
  Claim C1 says that decompressing the compressed form of every non-empty text gives the
  text back, also for an alphabet of size 1 such as \<^verbatim>\<open>"aaaa"\<close>. For two or more distinct
  symbols that is \<open>round_trip_two_symbols\<close>. For \<^verbatim>\<open>"aaaa"\<close> the program does not: the
  only symbol gets the empty code, the payload is the padding alone, and \<open>decompress\<close>
  returns the empty text.
\<close>

theorem single_symbol_text_is_lost:
  "compress init (ascii ''aaaa'') (ascii ''.txt'')
     = (\<lparr>heap = [], codes = [([97], [])]\<rparr>,
        Inr (json_dumps_header [([97], 4)] (ascii ''.txt'') @ [10, 8, 0]))
   \<and> decompress init (json_dumps_header [([97], 4)] (ascii ''.txt'') @ [10, 8, 0])
     = Some (\<lparr>heap = [], codes = [([97], [])]\<rparr>, Inr (ascii ''.txt'', []))"
  by code_simp

section \<open>Determinism of the code table\<close>

text \<open>The three calls on an object whose heap is empty.\<close>

lemma build_empty_heap:
  assumes "heap self = []" and "frequency \<noteq> []"
  shows "\<exists>root. huffman_tree frequency = Inr [root] \<and> wf_node root
           \<and> mset (symbols root) = mset (map fst frequency)
           \<and> build self frequency
               = (\<lparr>heap = [], codes = make_codes_helper (Some root) [] (codes self)\<rparr>, Inr ())"
proof -
  from huffman_tree_root [OF assms(2)] obtain root where
    t: "huffman_tree frequency = Inr [root]" and w: "wf_node root"
    and s: "mset (symbols root) = mset (map fst frequency)" by blast
  from build_tree [OF assms(1) t] t w s show ?thesis by blast
qed

text \<open>
  Claim C5, as amended. The code table is a function of the entries of the frequency table
  in their insertion order, not of the table as a mapping. Two runs of the three calls that
  start with an empty heap, on the same entries in the same order, both succeed, leave the
  heap empty and give every symbol of the table the same code, whatever codes the two
  objects held before.
\<close>

theorem tree_construction_deterministic:
  assumes "heap s1 = []" and "heap s2 = []"
    and "distinct (map fst frequency)" and "k \<in> set (map fst frequency)"
  shows "snd (build s1 frequency) = Inr () \<and> snd (build s2 frequency) = Inr ()
         \<and> heap (fst (build s1 frequency)) = [] \<and> heap (fst (build s2 frequency)) = []
         \<and> (\<exists>code. map_of (codes (fst (build s1 frequency))) k = Some code
                  \<and> map_of (codes (fst (build s2 frequency))) k = Some code)"
proof -
  have ne: "frequency \<noteq> []" using assms(4) by auto
  from build_empty_heap [OF assms(1) ne] obtain root where
    t: "huffman_tree frequency = Inr [root]"
    and s: "mset (symbols root) = mset (map fst frequency)"
    and b1: "build s1 frequency
               = (\<lparr>heap = [], codes = make_codes_helper (Some root) [] (codes s1)\<rparr>, Inr ())"
    by blast
  have b2: "build s2 frequency
               = (\<lparr>heap = [], codes = make_codes_helper (Some root) [] (codes s2)\<rparr>, Inr ())"
    using assms(2) t by (rule build_tree)
  have d: "distinct (symbols root)"
    using assms(3) s by (metis mset_eq_imp_distinct_iff)
  have "k \<in> set (symbols root)" using assms(4) s by (metis mset_eq_setD)
  then have "k \<in> dom (map_of (code_table root))" by (simp add: dom_code_table)
  then obtain code where c: "map_of (code_table root) k = Some code" by blast
  then have "map_of (make_codes_helper (Some root) [] (codes s1)) k = Some code"
    "map_of (make_codes_helper (Some root) [] (codes s2)) k = Some code"
    by (simp_all add: code_table_lookup [OF d] map_add_def)
  with b1 b2 show ?thesis by simp
qed

theorem tree_construction_deterministic_witness:
  "heap (init :: char HuffmanCoding) = []
   \<and> heap \<lparr>heap = [], codes = [(CHR ''a'', [B0]), (CHR ''z'', [B1])]\<rparr> = []
   \<and> distinct (map fst [(CHR ''a'', 1), (CHR ''b'', 1), (CHR ''c'', 1 :: int)])
   \<and> CHR ''a'' \<in> set (map fst [(CHR ''a'', 1), (CHR ''b'', 1), (CHR ''c'', 1 :: int)])
   \<and> map_of (codes (fst (build init [(CHR ''a'', 1), (CHR ''b'', 1), (CHR ''c'', 1)]))) CHR ''a''
       = Some [B1, B0]
   \<and> map_of (codes (fst (build \<lparr>heap = [], codes = [(CHR ''a'', [B0]), (CHR ''z'', [B1])]\<rparr>
                              [(CHR ''a'', 1), (CHR ''b'', 1), (CHR ''c'', 1)]))) CHR ''a''
       = Some [B1, B0]"
proof -
  let ?fr = "[(CHR ''a'', 1), (CHR ''b'', 1), (CHR ''c'', 1 :: int)]"
  let ?s2 = "\<lparr>heap = [], codes = [(CHR ''a'', [B0]), (CHR ''z'', [B1])]\<rparr>"
  have 1: "heap (init :: char HuffmanCoding) = []" by (simp add: init_def)
  have 2: "heap ?s2 = []" by simp
  have 3: "distinct (map fst ?fr)" by simp
  have 4: "CHR ''a'' \<in> set (map fst ?fr)" by simp
  have c: "map_of (codes (fst (build init ?fr))) CHR ''a'' = Some [B1, B0]" by code_simp
  from tree_construction_deterministic [OF 1 2 3 4] c
  have "map_of (codes (fst (build ?s2 ?fr))) CHR ''a'' = Some [B1, B0]" by auto
  with 1 2 3 4 c show ?thesis by blast
qed

text \<open>
  The counterexample to claim C5 as stated: the tables \<^verbatim>\<open>{'a': 1, 'b': 1}\<close> and
  \<^verbatim>\<open>{'b': 1, 'a': 1}\<close> are the same mapping (Python's \<^verbatim>\<open>==\<close> holds), and the code
  tables built from them differ: the tie between the equal weights is decided by the
  order in which the entries reach the heap.
\<close>

theorem code_table_depends_on_insertion_order:
  "map_of [(CHR ''a'', 1), (CHR ''b'', 1 :: int)] = map_of [(CHR ''b'', 1), (CHR ''a'', 1)]
   \<and> codes (fst (build init [(CHR ''a'', 1), (CHR ''b'', 1)]))
       = [(CHR ''a'', [B0]), (CHR ''b'', [B1])]
   \<and> codes (fst (build init [(CHR ''b'', 1), (CHR ''a'', 1)]))
       = [(CHR ''b'', [B0]), (CHR ''a'', [B1])]
   \<and> map_of (codes (fst (build init [(CHR ''a'', 1), (CHR ''b'', 1)]))) CHR ''a''
       \<noteq> map_of (codes (fst (build init [(CHR ''b'', 1), (CHR ''a'', 1)]))) CHR ''a''"
proof -
  have "map_of [(CHR ''a'', 1), (CHR ''b'', 1 :: int)] = map_of [(CHR ''b'', 1), (CHR ''a'', 1)]"
    by (auto simp: fun_eq_iff)
  moreover have "codes (fst (build init [(CHR ''a'', 1), (CHR ''b'', 1)]))
       = [(CHR ''a'', [B0]), (CHR ''b'', [B1])]" by code_simp
  moreover have "codes (fst (build init [(CHR ''b'', 1), (CHR ''a'', 1)]))
       = [(CHR ''b'', [B0]), (CHR ''a'', [B1])]" by code_simp
  ultimately show ?thesis by simp
qed

section \<open>Reusing one object\<close>

lemma insert_code_commute:
  "p \<noteq> q \<Longrightarrow> insert_code (insert_code t p x) q y = insert_code (insert_code t q y) p x"
proof (induction p arbitrary: q t)
  case Nil
  obtain c n0 n1 where t: "t = DNode c n0 n1" by (cases t)
  from Nil obtain b q' where q: "q = b # q'" by (cases q) auto
  show ?case by (cases b) (simp_all add: t q)
next
  case (Cons a p)
  obtain c n0 n1 where t: "t = DNode c n0 n1" by (cases t)
  show ?case
  proof (cases q)
    case Nil
    show ?thesis by (cases a) (simp_all add: t Nil)
  next
    case (Cons b q')
    show ?thesis
    proof (cases "a = b")
      case False
      then show ?thesis by (cases a; cases b) (simp_all add: t Cons)
    next
      case True
      with Cons.prems Cons have "p \<noteq> q'" by simp
      from Cons.IH [OF this] show ?thesis
        using True by (cases b) (simp_all add: t Cons setdefault_def)
    qed
  qed
qed

lemma insert_all_fold:
  "insert_all t cs = fold (\<lambda>(ch, code) tree. insert_code tree code ch) cs t"
  by (simp add: insert_all_def foldl_conv_fold case_prod_unfold)

lemma insert_all_permutation:
  assumes "mset cs = mset ds"
    and "\<And>x p y q. (x, p) \<in> set cs \<Longrightarrow> (y, q) \<in> set cs \<Longrightarrow> p = q \<Longrightarrow> x = y"
  shows "insert_all t cs = insert_all t ds"
proof -
  have "fold (\<lambda>(ch, code) tree. insert_code tree code ch) cs
          = fold (\<lambda>(ch, code) tree. insert_code tree code ch) ds"
  proof (rule fold_multiset_equiv [OF _ assms(1)])
    fix u v
    assume u: "u \<in> set cs" and v: "v \<in> set cs"
    obtain x p where up: "u = (x, p)" by (cases u)
    obtain y q where vq: "v = (y, q)" by (cases v)
    show "(case u of (ch, code) \<Rightarrow> \<lambda>tree. insert_code tree code ch)
            \<circ> (case v of (ch, code) \<Rightarrow> \<lambda>tree. insert_code tree code ch)
          = (case v of (ch, code) \<Rightarrow> \<lambda>tree. insert_code tree code ch)
            \<circ> (case u of (ch, code) \<Rightarrow> \<lambda>tree. insert_code tree code ch)"
    proof (cases "p = q")
      case True
      with assms(2) u v up vq have "x = y" by blast
      with True up vq show ?thesis by simp
    next
      case False
      then show ?thesis
        by (auto simp: up vq fun_eq_iff insert_code_commute)
    qed
  qed
  then show ?thesis by (simp add: insert_all_fold)
qed

text \<open>
  An object whose residual codes belong to symbols of the new table ends with the new code
  table, in another order; the decode tree is the same.
\<close>

lemma residual_codes_overwritten:
  assumes "distinct (map fst cs)" and "set (map fst cs) \<subseteq> set (symbols root)"
    and "distinct (symbols root)"
  shows "build_decode_tree (make_codes_helper (Some root) [] cs)
           = build_decode_tree (code_table root)"
proof -
  let ?cs' = "make_codes_helper (Some root) [] cs"
  have m: "map_of ?cs' = map_of (code_table root)"
  proof
    fix k
    show "map_of ?cs' k = map_of (code_table root) k"
    proof (cases "k \<in> set (symbols root)")
      case True
      then have "k \<in> dom (map_of (code_table root))" by (simp add: dom_code_table)
      then show ?thesis by (auto simp: code_table_lookup [OF assms(3)] map_add_def)
    next
      case False
      with assms(2) have "k \<notin> set (map fst cs)" by auto
      then have "map_of cs k = None" by (simp add: map_of_eq_None_iff)
      moreover from False have "map_of (code_table root) k = None"
        using dom_code_table [of root] by blast
      ultimately show ?thesis by (simp add: code_table_lookup [OF assms(3)] map_add_def)
    qed
  qed
  have keys: "distinct (map fst ?cs')"
  proof -
    have "\<And>ps. distinct (map fst cs) \<Longrightarrow>
        distinct (map fst (foldl (\<lambda>d (x, p). dict_set d x ([] @ p)) cs ps))"
    proof -
      fix ps :: "('a \<times> bits) list"
      show "distinct (map fst cs) \<Longrightarrow>
        distinct (map fst (foldl (\<lambda>d (x, p). dict_set d x ([] @ p)) cs ps))"
        by (induction ps arbitrary: cs) (auto simp: distinct_dict_set)
    qed
    with assms(1) show ?thesis by (simp add: make_codes_helper_foldl)
  qed
  have keys': "distinct (map fst (code_table root))"
    using assms(3) by (simp add: code_table_def symbols_def)
  have "set ?cs' = set (code_table root)"
    using m keys keys' by (simp add: map_of_inject_set)
  moreover have "distinct ?cs'" "distinct (code_table root)"
    using keys keys' by (simp_all add: distinct_map)
  ultimately have ms: "mset (code_table root) = mset ?cs'"
    by (simp add: set_eq_iff_mset_eq_distinct)
  have "insert_all empty_dict (code_table root) = insert_all empty_dict ?cs'"
  proof (rule insert_all_permutation [OF ms])
    fix x p y q
    assume "(x, p) \<in> set (code_table root)" "(y, q) \<in> set (code_table root)" "p = q"
    then show "x = y"
      using paths_prefix [of x p "Some root" y q] by (simp add: code_table_def)
  qed
  then show ?thesis by (simp add: build_decode_tree_insert_all)
qed

lemma scan_items_distinct:
  "distinct (map fst d) \<Longrightarrow> scan_items s d = Inr (fr, r) \<Longrightarrow> distinct (map fst fr)"
proof (induction s d arbitrary: fr r rule: scan_items.induct)
  case (1 s d)
  from "1.prems"(2) obtain s1 key s2 s3 f s4 where
    e1: "expect [34] s = Inr s1" and sc: "scanstring s1 [] = Inr (key, s2)"
    and e2: "expect [58, 32] s2 = Inr s3" and si: "scan_int s3 = Inr (f, s4)"
    and rest: "(if take 2 s4 = [44, 32] then scan_items (drop 2 s4) (dict_set d key f)
                else if take 1 s4 = [125] then Inr (dict_set d key f, drop 1 s4)
                else Inl OutsideModel) = Inr (fr, r)"
    by (subst (asm) scan_items.simps) (auto split: sum.splits prod.splits)
  have dd: "distinct (map fst (dict_set d key f))"
    using "1.prems"(1) by (rule distinct_dict_set)
  show ?case
  proof (cases "take 2 s4 = [44, 32]")
    case True
    with rest have "scan_items (drop 2 s4) (dict_set d key f) = Inr (fr, r)" by simp
    from "1.IH" [OF e1 sc refl e2 si refl True dd this] show ?thesis .
  next
    case False
    with rest have "fr = dict_set d key f" by (auto split: if_splits)
    with dd show ?thesis by simp
  qed
qed

lemma json_loads_header_distinct:
  "json_loads_header hb = Inr (frequency, ext) \<Longrightarrow> distinct (map fst frequency)"
proof -
  assume "json_loads_header hb = Inr (frequency, ext)"
  then obtain s1 s2 where "scan_frequency s1 = Inr (frequency, s2)"
    by (auto simp: json_loads_header_def split: sum.splits prod.splits if_splits)
  then show ?thesis
    using scan_items_distinct [of "[]" _ frequency s2]
    by (auto simp: scan_frequency_def split: sum.splits if_splits)
qed

lemma compress_reused:
  assumes "heap self = []"
  shows "snd (compress self text ext) = snd (compress init text ext)
         \<and> heap (fst (compress self text ext)) = []"
proof (cases "text = []")
  case True
  have "heap (init :: pystr HuffmanCoding) = []" by (simp add: init_def)
  then show ?thesis
    using True assms
    by (simp add: compress_def characters_def make_frequency_dict_def build_empty)
next
  case False
  have h: "heap (init :: pystr HuffmanCoding) = []" by (simp add: init_def)
  from compress_empty_heap [OF assms False, of ext] obtain root e where
    t: "huffman_tree (make_frequency_dict (characters text)) = Inr [root]"
    and e: "get_encoded_text (code_table root) (characters text) = Inr e"
    and c: "compress self text ext =
               (\<lparr>heap = [], codes = make_codes_helper (Some root) [] (codes self)\<rparr>,
                Inr (json_dumps_header (make_frequency_dict (characters text)) ext @ [10]
                       @ map bits_val (chunks8 (pad_encoded_text e))))"
    by blast
  from compress_empty_heap [OF h False, of ext] obtain root' e' where
    t': "huffman_tree (make_frequency_dict (characters text)) = Inr [root']"
    and e': "get_encoded_text (code_table root') (characters text) = Inr e'"
    and c': "compress init text ext =
               (\<lparr>heap = [], codes = make_codes_helper (Some root') [] (codes init)\<rparr>,
                Inr (json_dumps_header (make_frequency_dict (characters text)) ext @ [10]
                       @ map bits_val (chunks8 (pad_encoded_text e'))))"
    by blast
  from t t' have "root' = root" by simp
  with e e' have "e' = e" by simp
  with c c' show ?thesis by simp
qed

lemma heap_after_decompress_body:
  assumes "heap self = []" and "json_loads_header hb = Inr (frequency, ext)"
  shows "heap (fst (decompress_body self hb payload)) = []"
proof -
  obtain s r where b: "build self frequency = (s, r)" by (cases "build self frequency")
  have "heap s = []" using heap_after_build [OF assms(1), of frequency] b by simp
  then show ?thesis
    by (simp add: decompress_body_def assms(2) b split: sum.splits)
qed

lemma decompress_body_reused:
  assumes "heap self = []" and "distinct (map fst (codes self))"
    and "json_loads_header hb = Inr (frequency, ext)"
    and "set (map fst (codes self)) \<subseteq> set (map fst frequency)"
  shows "snd (decompress_body self hb payload) = snd (decompress_body init hb payload)"
proof (cases "frequency = []")
  case True
  have "heap (init :: pystr HuffmanCoding) = []" by (simp add: init_def)
  then show ?thesis
    using True assms(1,3) by (simp add: decompress_body_def build_empty)
next
  case False
  have h: "heap (init :: pystr HuffmanCoding) = []" by (simp add: init_def)
  from build_empty_heap [OF assms(1) False] obtain root where
    t: "huffman_tree frequency = Inr [root]"
    and s: "mset (symbols root) = mset (map fst frequency)"
    and b: "build self frequency
              = (\<lparr>heap = [], codes = make_codes_helper (Some root) [] (codes self)\<rparr>, Inr ())"
    by blast
  have b': "build init frequency
              = (\<lparr>heap = [], codes = make_codes_helper (Some root) [] (codes init)\<rparr>, Inr ())"
    using h t by (rule build_tree)
  have d: "distinct (symbols root)"
    using json_loads_header_distinct [OF assms(3)] s by (metis mset_eq_imp_distinct_iff)
  have "set (map fst (codes self)) \<subseteq> set (symbols root)"
    using assms(4) s by (metis mset_eq_setD)
  with assms(2) have 1: "build_decode_tree (make_codes_helper (Some root) [] (codes self))
           = build_decode_tree (code_table root)"
    using d by (intro residual_codes_overwritten)
  have 2: "build_decode_tree (make_codes_helper (Some root) [] (codes init))
           = build_decode_tree (code_table root)"
    using d by (intro residual_codes_overwritten) (simp_all add: init_def)
  show ?thesis
    using assms(3) by (simp add: decompress_body_def b b' 1 2 split: sum.splits)
qed

text \<open>
  Claim C9, as amended. A \<open>compress\<close> invocation on an object whose heap is empty returns
  what it returns on a new object, whatever codes an earlier call left, and leaves the heap
  empty again. A \<open>decompress\<close> invocation on such an object, for a file whose header is a
  document of the layout that \<open>compress\<close> writes (a frequency object from strings to
  integers, then the extension), ends, with its result or with an exception, and leaves
  the heap empty again. It builds its decode tree from all entries of
  \<open>self.codes\<close>, the residual ones included: it returns what it returns on a new object
  when every residual code belongs to a symbol of the frequency table of the file, which
  then overwrites it.
\<close>

theorem reused_object:
  assumes "heap self = []"
  shows "snd (compress self text ext) = snd (compress init text ext)
         \<and> heap (fst (compress self text ext)) = []
         \<and> (read_header file [] = Some (hb, payload)
              \<and> json_loads_header hb = Inr (frequency, ext')
             \<longrightarrow> (\<exists>s r. decompress self file = Some (s, r) \<and> heap s = []))
         \<and> (distinct (map fst (codes self)) \<and> read_header file [] = Some (hb, payload)
              \<and> json_loads_header hb = Inr (frequency, ext')
              \<and> set (map fst (codes self)) \<subseteq> set (map fst frequency)
             \<longrightarrow> map_option snd (decompress self file) = map_option snd (decompress init file))"
proof -
  have "\<exists>s r. decompress self file = Some (s, r) \<and> heap s = []"
    if "read_header file [] = Some (hb, payload)" "json_loads_header hb = Inr (frequency, ext')"
  proof -
    obtain s r where sr: "decompress_body self hb payload = (s, r)"
      by (cases "decompress_body self hb payload")
    have "heap s = []"
      using heap_after_decompress_body [OF assms that(2), of payload] sr by simp
    with that(1) sr show ?thesis by (simp add: decompress_def)
  qed
  moreover have "map_option snd (decompress self file) = map_option snd (decompress init file)"
    if "distinct (map fst (codes self))" "read_header file [] = Some (hb, payload)"
      "json_loads_header hb = Inr (frequency, ext')"
      "set (map fst (codes self)) \<subseteq> set (map fst frequency)"
    using decompress_body_reused [OF assms that(1,3,4), of payload] that(2)
    by (simp add: decompress_def)
  ultimately show ?thesis
    using compress_reused [OF assms, of "text" ext] by blast
qed

theorem reused_object_witness:
  "heap \<lparr>heap = [], codes = [([97 :: nat], [B0]), ([98], [B1])]\<rparr> = []
   \<and> distinct (map fst (codes \<lparr>heap = [], codes = [([97 :: nat], [B0]), ([98], [B1])]\<rparr>))
   \<and> read_header (json_dumps_header [([98], 1), ([97], 1)] (ascii ''.txt'') @ [10, 6, 64]) []
       = Some (json_dumps_header [([98], 1), ([97], 1)] (ascii ''.txt''), [6, 64])
   \<and> json_loads_header (json_dumps_header [([98], 1), ([97], 1)] (ascii ''.txt''))
       = Inr ([([98], 1), ([97], 1)], ascii ''.txt'')
   \<and> set (map fst (codes \<lparr>heap = [], codes = [([97 :: nat], [B0]), ([98], [B1])]\<rparr>))
       \<subseteq> set (map fst [([98 :: nat], 1 :: int), ([97], 1)])
   \<and> snd (compress \<lparr>heap = [], codes = [([97], [B0]), ([98], [B1])]\<rparr> (ascii ''ba'') (ascii ''.txt''))
       = Inr (json_dumps_header [([98], 1), ([97], 1)] (ascii ''.txt'') @ [10, 6, 64])
   \<and> map_option snd
         (decompress \<lparr>heap = [], codes = [([97], [B0]), ([98], [B1])]\<rparr>
            (json_dumps_header [([98], 1), ([97], 1)] (ascii ''.txt'') @ [10, 6, 64]))
       = Some (Inr (ascii ''.txt'', ascii ''ba''))
   \<and> map_option (\<lambda>sr. heap (fst sr))
         (decompress \<lparr>heap = [], codes = [([97], [B0]), ([98], [B1])]\<rparr>
            (json_dumps_header [([98], 1), ([97], 1)] (ascii ''.txt'') @ [10, 6, 64]))
       = Some []"
proof -
  let ?s = "\<lparr>heap = [], codes = [([97 :: nat], [B0]), ([98], [B1])]\<rparr>"
  let ?h = "json_dumps_header [([98], 1), ([97], 1)] (ascii ''.txt'')"
  have 1: "heap ?s = []" by simp
  have 2: "distinct (map fst (codes ?s))" by simp
  have 3: "read_header (?h @ [10, 6, 64]) [] = Some (?h, [6, 64])" by code_simp
  have 4: "json_loads_header ?h = Inr ([([98], 1), ([97], 1)], ascii ''.txt'')" by code_simp
  have 5: "set (map fst (codes ?s)) \<subseteq> set (map fst [([98 :: nat], 1 :: int), ([97], 1)])"
    by simp
  have c: "snd (compress init (ascii ''ba'') (ascii ''.txt'')) = Inr (?h @ [10, 6, 64])"
    by code_simp
  have d: "map_option snd (decompress init (?h @ [10, 6, 64]))
             = Some (Inr (ascii ''.txt'', ascii ''ba''))"
    by code_simp
  let ?f = "?h @ [10, 6, 64]"
  note r = reused_object [OF 1, of "ascii ''ba''" "ascii ''.txt''" ?f ?h "[6, 64]"
      "[([98], 1), ([97], 1)]" "ascii ''.txt''"]
  have "snd (compress ?s (ascii ''ba'') (ascii ''.txt''))
          = snd (compress init (ascii ''ba'') (ascii ''.txt''))"
    using r by blast
  then have a: "snd (compress ?s (ascii ''ba'') (ascii ''.txt'')) = Inr ?f"
    by (simp only: c)
  have "map_option snd (decompress ?s ?f) = map_option snd (decompress init ?f)"
    using r 2 3 4 5 by blast
  then have b: "map_option snd (decompress ?s ?f) = Some (Inr (ascii ''.txt'', ascii ''ba''))"
    by (simp only: d)
  have "\<exists>s r. decompress ?s ?f = Some (s, r) \<and> heap s = []"
    using r 3 4 by blast
  then obtain s' r' where "decompress ?s ?f = Some (s', r')" and "heap s' = []" by blast
  then have e: "map_option (\<lambda>sr. heap (fst sr)) (decompress ?s ?f) = Some []"
    by (simp only: option.map fst_conv)
  from 1 2 3 4 5 a b e show ?thesis by blast
qed

text \<open>
  The counterexample to claim C9 as stated: a new object compresses the text
  \<^verbatim>\<open>"ab"\<close>, which leaves the codes \<^verbatim>\<open>{'a': '0', 'b': '1'}\<close>; the same object then
  decompresses the file that a new object writes for the text \<^verbatim>\<open>"xyzz"\<close>. A new object
  returns \<^verbatim>\<open>"xyzz"\<close>, the reused one \<^verbatim>\<open>"bzbbzz"\<close>: the residual code of \<^verbatim>\<open>'b'\<close> is a
  prefix of the codes of \<^verbatim>\<open>'x'\<close> and \<^verbatim>\<open>'y'\<close>.
\<close>

theorem residual_codes_change_decompress:
  "fst (compress init (ascii ''ab'') (ascii ''.txt''))
     = \<lparr>heap = [], codes = [([97], [B0]), ([98], [B1])]\<rparr>
   \<and> snd (compress init (ascii ''xyzz'') (ascii ''.txt''))
     = Inr (json_dumps_header [([120], 1), ([121], 1), ([122], 2)] (ascii ''.txt'') @ [10, 2, 176])
   \<and> map_option snd
       (decompress init
          (json_dumps_header [([120], 1), ([121], 1), ([122], 2)] (ascii ''.txt'') @ [10, 2, 176]))
     = Some (Inr (ascii ''.txt'', ascii ''xyzz''))
   \<and> map_option snd
       (decompress \<lparr>heap = [], codes = [([97], [B0]), ([98], [B1])]\<rparr>
          (json_dumps_header [([120], 1), ([121], 1), ([122], 2)] (ascii ''.txt'') @ [10, 2, 176]))
     = Some (Inr (ascii ''.txt'', ascii ''bzbbzz''))"
proof -
  have "fst (compress init (ascii ''ab'') (ascii ''.txt''))
     = \<lparr>heap = [], codes = [([97], [B0]), ([98], [B1])]\<rparr>" by code_simp
  moreover have "snd (compress init (ascii ''xyzz'') (ascii ''.txt''))
     = Inr (json_dumps_header [([120], 1), ([121], 1), ([122], 2)] (ascii ''.txt'') @ [10, 2, 176])"
    by code_simp
  moreover have "map_option snd
       (decompress init
          (json_dumps_header [([120], 1), ([121], 1), ([122], 2)] (ascii ''.txt'') @ [10, 2, 176]))
     = Some (Inr (ascii ''.txt'', ascii ''xyzz''))" by code_simp
  moreover have "map_option snd
       (decompress \<lparr>heap = [], codes = [([97], [B0]), ([98], [B1])]\<rparr>
          (json_dumps_header [([120], 1), ([121], 1), ([122], 2)] (ascii ''.txt'') @ [10, 2, 176]))
     = Some (Inr (ascii ''.txt'', ascii ''bzbbzz''))" by code_simp
  ultimately show ?thesis by blast
qed

section \<open>Texts over a single symbol\<close>

lemma wf_node_single_path:
  assumes "wf_node t" and "length (paths (Some t)) = 1"
  shows "\<exists>ch. char t = Some ch \<and> paths (Some t) = [(ch, [])]"
proof (cases t)
  case (HeapNode c f l r)
  show ?thesis
  proof (cases c)
    case (Some ch)
    with HeapNode show ?thesis by simp
  next
    case None
    with assms(1) HeapNode obtain a b where l: "l = Some a" "r = Some b"
      and w: "wf_node a" "wf_node b"
      by (auto split: option.splits)
    have "paths (Some a) \<noteq> []" "paths (Some b) \<noteq> []"
      using w by (simp_all add: paths_nonempty)
    then have "2 \<le> length (paths (Some a)) + length (paths (Some b))"
      by (cases "paths (Some a)"; cases "paths (Some b)") simp_all
    with assms(2) HeapNode None l show ?thesis by simp
  qed
qed

lemma get_encoded_text_empty_codes:
  "\<forall>c\<in>set cs. map_of t c = Some [] \<Longrightarrow> get_encoded_text t cs = Inr []"
  by (induction cs) simp_all

text \<open>
  Every non-empty text over a single symbol is lost: \<open>compress\<close> returns a file, and
  \<open>decompress\<close> of that file returns the empty text.
\<close>

theorem single_symbol_round_trip_fails:
  assumes "text \<noteq> []" and "set text = {a}"
    and "no_high_surrogate a" and "list_all no_high_surrogate ext"
  shows "\<exists>s file s'. compress init text ext = (s, Inr file)
           \<and> decompress init file = Some (s', Inr (ext, []))"
proof -
  let ?cs = "characters text"
  let ?fr = "make_frequency_dict ?cs"
  have h: "heap (init :: pystr HuffmanCoding) = []" by (simp add: init_def)
  from compress_empty_heap [OF h assms(1), of ext] obtain root e where
    t: "huffman_tree ?fr = Inr [root]" and w: "wf_node root"
    and s: "mset (symbols root) = mset (map fst ?fr)"
    and e: "get_encoded_text (code_table root) ?cs = Inr e"
    and c: "compress init text ext =
               (\<lparr>heap = [], codes = make_codes_helper (Some root) [] (codes init)\<rparr>,
                Inr (json_dumps_header ?fr ext @ [10] @ map bits_val (chunks8 (pad_encoded_text e))))"
    by blast
  let ?header = "json_dumps_header ?fr ext"
  let ?payload = "map bits_val (chunks8 (pad_encoded_text e))"
  have d: "distinct (symbols root)"
    using make_frequency_dict_keys [of ?cs] s by (metis mset_eq_imp_distinct_iff)
  have keys: "set (symbols root) = {[a]}"
    using make_frequency_dict_keys [of ?cs] s assms(2)
    by (metis mset_eq_setD set_characters image_insert image_empty)
  have "card (set (symbols root)) = 1" by (simp add: keys)
  then have "length (symbols root) = 1" using d by (simp add: distinct_card)
  then have "length (paths (Some root)) = 1" by (simp add: symbols_def)
  with w obtain ch where p: "paths (Some root) = [(ch, [])]"
    using wf_node_single_path by blast
  with keys have ch: "ch = [a]" by (simp add: symbols_def)
  have ct: "code_table root = [([a], [])]" by (simp add: code_table_def p ch)
  have "\<forall>c\<in>set ?cs. map_of (code_table root) c = Some []"
    using assms(2) by (simp add: ct set_characters)
  then have "get_encoded_text (code_table root) ?cs = Inr []"
    by (rule get_encoded_text_empty_codes)
  with e have e0: "e = []" by simp
  have rh: "read_header (?header @ [10] @ ?payload) [] = Some (?header, ?payload)"
    using read_header_delimiter [OF printable_no_newline [OF printable_json_dumps_header],
        of ?fr ext ?payload "[]"] by simp
  have "list_all no_high_surrogate text"
    using assms(2,3) by (simp add: list_all_iff)
  then have jl: "json_loads_header ?header = Inr (?fr, ext)"
    using make_frequency_dict_keys [of ?cs] frequency_keys_no_high_surrogate assms(4)
    by (intro json_loads_dumps) simp_all
  have rp: "remove_padding (unpack_bytes ?payload) = Inr e"
    by (simp add: unpack_get_byte_array length_pad_mod8 remove_padding_pad)
  have "decode_text_tree e (build_decode_tree (code_table root)) = Inr []"
    by (simp add: e0 decode_text_tree_def)
  then have db: "decompress_body init ?header ?payload
                   = (\<lparr>heap = [], codes = code_table root\<rparr>, Inr (ext, []))"
    by (simp add: decompress_body_init [OF jl t d rp] write_utf8_def)
  have "decompress init (?header @ [10] @ ?payload) =
          Some (\<lparr>heap = [], codes = code_table root\<rparr>, Inr (ext, []))"
    by (simp add: decompress_def rh db del: append.simps)
  with c show ?thesis by blast
qed

end
